theory Spec2Isabelle
  imports Complex_Main
begin

section \<open>The base type and the ways a run can go wrong\<close>

text \<open>
  \<^verbatim>\<open>using T = double;\<close> is the type all calculations run in. The model computes on
  the real numbers: the values that occur in the concrete statements below (small
  integers and the powers of ten up to \<open>10^20\<close>) are doubles, and sums and products of
  them are exact. Rounding is not modelled. An infinity or NaN has no counterpart among
  the reals. The function of an operation, which computes on reals, answers
  \<open>NonFinite\<close> where the reals give no value (a division by zero, a pole of \<^verbatim>\<open>pow\<close>).
  A value that evaluation passes on is a double, \<open>T option\<close>: \<open>Some x\<close> is the finite
  double of value \<open>x\<close>, and \<open>None\<close> is a double that the real numbers do not determine:
  an infinity, a NaN, or whatever the program computes from one. A result that is too
  large for a double overflows to an infinity and is \<open>None\<close> as well. Inside the function
  of one operation the reals are exact: the rounding of its operations, and with it an
  underflow, or an overflow of the product inside \<^verbatim>\<open>cat\<close>, is not modelled.
\<close>

type_synonym T = real

text \<open>
  \<open>Thrown\<close> is a C++ exception with its message. The other outcomes are not errors the
  program raises: \<open>NullDeref\<close> is \<^verbatim>\<open>op->fn\<close> on a null \<^verbatim>\<open>op\<close>, \<open>OutOfRange\<close> is
  \<^verbatim>\<open>args[k]\<close> beyond the end of the vector, \<open>DivideByZero\<close> is the integer \<^verbatim>\<open>%\<close> or
  \<^verbatim>\<open>/\<close> by zero (all three undefined behaviour), and \<open>NonFinite\<close> is the answer of an
  operation's function on reals where the double is an infinity or NaN.
\<close>

datatype failure =
    Thrown string
  | NullDeref
  | OutOfRange
  | DivideByZero
  | NonFinite

section \<open>Operations\<close>

text \<open>
  \<^verbatim>\<open>struct Operation\<close>. The field \<^verbatim>\<open>infix\<close> is called \<open>infx\<close> and the field
  \<^verbatim>\<open>precedence\<close> is called \<open>prec\<close> (the name of the constructor's parameter), since the
  function \<^verbatim>\<open>precedence(Operation*)\<close> keeps its name below.
\<close>

record Operation =
  name :: string
  infx :: string
  n :: int
  prec :: int
  fn :: "T list \<Rightarrow> failure + T"

text \<open>\<^verbatim>\<open>intpow\<close>: signed overflow wraps to 32 bits here, as the usual targets do.\<close>

function intpow_loop :: "int \<Rightarrow> int \<Rightarrow> int \<Rightarrow> int" where
  "intpow_loop r a b =
     (if b > 0
      then intpow_loop (if odd b then signed_take_bit 31 (r * a) else r)
             (signed_take_bit 31 (a * a)) (b div 2)
      else r)"
  by pat_completeness auto
termination
  by (relation "measure (\<lambda>(r, a, b). nat b)") auto

definition intpow :: "int \<Rightarrow> int \<Rightarrow> int" where
  "intpow a b = intpow_loop 1 a b"

text \<open>\<^verbatim>\<open>tenfactor\<close>: the loop on \<open>f\<close> and \<open>i\<close>, started at \<open>f = 1\<close>, \<open>i = 0\<close>.\<close>

function tenfactor_loop :: "T \<Rightarrow> T \<Rightarrow> int \<Rightarrow> T" where
  "tenfactor_loop x f i =
     (if i < 20 \<and> x \<ge> f then tenfactor_loop x (f * 10) (i + 1) else f)"
  by pat_completeness auto
termination
  by (relation "measure (\<lambda>(x, f, i). nat (20 - i))") auto

definition tenfactor :: "T \<Rightarrow> T" where
  "tenfactor x = tenfactor_loop x 1 0"

text \<open>\<^verbatim>\<open>args[k]\<close> on the vector an operation receives.\<close>

definition arg :: "T list \<Rightarrow> nat \<Rightarrow> failure + T" where
  "arg args k = (if k < length args then Inr (args ! k) else Inl OutOfRange)"

text \<open>A lambda that reads \<^verbatim>\<open>args[0]\<close> and \<^verbatim>\<open>args[1]\<close>, and one that reads \<^verbatim>\<open>args[0]\<close>.\<close>

definition binary :: "(T \<Rightarrow> T \<Rightarrow> failure + T) \<Rightarrow> T list \<Rightarrow> failure + T" where
  "binary f args =
     (case arg args 0 of Inl e \<Rightarrow> Inl e
      | Inr a \<Rightarrow> (case arg args 1 of Inl e \<Rightarrow> Inl e | Inr b \<Rightarrow> f a b))"

definition unary :: "(T \<Rightarrow> failure + T) \<Rightarrow> T list \<Rightarrow> failure + T" where
  "unary f args = (case arg args 0 of Inl e \<Rightarrow> Inl e | Inr a \<Rightarrow> f a)"

text \<open>
  Division of doubles: a zero divisor gives an infinity or NaN, which is outside the
  real-number model.
\<close>

definition div_T :: "T \<Rightarrow> T \<Rightarrow> failure + T" where
  "div_T a b = (if b = 0 then Inl NonFinite else Inr (a / b))"

text \<open>
  Modelled from the C library, which is not part of the repository: \<^verbatim>\<open>pow\<close> of
  \<^verbatim>\<open>cmath\<close> on finite arguments. A zero exponent gives 1; a negative base takes an
  integral exponent only; the pole at a zero base and the domain error give no real.
\<close>

definition pow_T :: "T \<Rightarrow> T \<Rightarrow> failure + T" where
  "pow_T a b =
     (if b = 0 then Inr 1
      else if a > 0 then Inr (a powr b)
      else if a = 0 then (if b > 0 then Inr 0 else Inl NonFinite)
      else if b \<in> \<int> then Inr (if even \<lfloor>b\<rfloor> then (- a) powr b else - ((- a) powr b))
      else Inl NonFinite)"

definition op_add :: Operation where
  "op_add = \<lparr>name = ''add'', infx = ''+'', n = 2, prec = 1,
     fn = binary (\<lambda>a b. Inr (a + b))\<rparr>"

definition op_sub :: Operation where
  "op_sub = \<lparr>name = ''sub'', infx = ''-'', n = 2, prec = 1,
     fn = binary (\<lambda>a b. Inr (a - b))\<rparr>"

definition op_mul :: Operation where
  "op_mul = \<lparr>name = ''mul'', infx = ''*'', n = 2, prec = 2,
     fn = binary (\<lambda>a b. Inr (a * b))\<rparr>"

definition op_div :: Operation where
  "op_div = \<lparr>name = ''div'', infx = ''/'', n = 2, prec = 3,
     fn = binary div_T\<rparr>"

definition op_pow :: Operation where
  "op_pow = \<lparr>name = ''pow'', infx = ''^'', n = 2, prec = 4,
     fn = binary pow_T\<rparr>"

definition op_cat :: Operation where
  "op_cat = \<lparr>name = ''cat'', infx = ''||'', n = 2, prec = 5,
     fn = binary (\<lambda>a b. Inr (a * tenfactor b + b))\<rparr>"

definition op_neg :: Operation where
  "op_neg = \<lparr>name = ''neg'', infx = ''-'', n = 1, prec = 2,
     fn = unary (\<lambda>a. Inr (- a))\<rparr>"

definition oplist :: "Operation list" where
  "oplist = [op_add, op_sub, op_mul, op_div, op_pow, op_cat, op_neg]"

text \<open>\<^verbatim>\<open>precedence\<close>: a null pointer (a value node) counts 9.\<close>

fun precedence :: "Operation option \<Rightarrow> int" where
  "precedence None = 9"
| "precedence (Some op) = prec op"

section \<open>Expression trees\<close>

text \<open>
  \<^verbatim>\<open>Value\<close> and \<^verbatim>\<open>Expr\<close>, the two subclasses of \<^verbatim>\<open>Node\<close>. The pointer \<^verbatim>\<open>op\<close> is
  an option, \<open>None\<close> for \<^verbatim>\<open>nullptr\<close>. A leaf holds a finite double, as the operands
  of \<^verbatim>\<open>main\<close> are. A tree is a term: no node occurs twice inside one tree, which holds
  for every tree \<^verbatim>\<open>enumtrees\<close> builds.
\<close>

datatype Node = Value T | Expr "Operation option" "Node list"

fun operation :: "Node \<Rightarrow> Operation option" where
  "operation (Value v) = None"
| "operation (Expr opt args) = opt"

text \<open>
  The double of a real result. The largest double is \<open>2^1024 - 2^971\<close>; rounding to
  nearest, a result of magnitude \<open>2^1024 - 2^970\<close> or more becomes an infinity.
\<close>

definition overflow_bound :: real where
  "overflow_bound = 2 ^ 1024 - 2 ^ 970"

definition to_double :: "real \<Rightarrow> T option" where
  "to_double x = (if \<bar>x\<bar> < overflow_bound then Some x else None)"

text \<open>
  \<^verbatim>\<open>op->fn(results)\<close> on doubles. On finite arguments it is the function on reals, with
  \<open>NonFinite\<close> and an overflow turned into the double \<open>None\<close>. With an infinity or NaN
  among the arguments the function still returns a double, which the reals do not
  determine; what is left of its behaviour is the read beyond the end of the vector,
  and that depends on the number of arguments alone: an operation reads its first \<open>n\<close>
  arguments, as every lambda of the registry does.
\<close>

definition apply_fn :: "Operation \<Rightarrow> T option list \<Rightarrow> failure + T option" where
  "apply_fn op results =
     (case those results of
        Some xs \<Rightarrow>
          (case fn op xs of
             Inr x \<Rightarrow> Inr (to_double x)
           | Inl NonFinite \<Rightarrow> Inr None
           | Inl e \<Rightarrow> Inl e)
      | None \<Rightarrow> (if int (length results) < n op then Inl OutOfRange else Inr None))"

text \<open>
  \<^verbatim>\<open>Value::eval\<close> and \<^verbatim>\<open>Expr::eval\<close>: the children left to right, whatever doubles they
  give, then \<^verbatim>\<open>op->fn(results)\<close>, through the null pointer when there is no operation.
\<close>

fun eval :: "Node \<Rightarrow> failure + T option"
  and eval_args :: "Node list \<Rightarrow> failure + T option list" where
  "eval (Value v) = Inr (Some v)"
| "eval (Expr opt args) =
     (case eval_args args of Inl e \<Rightarrow> Inl e
      | Inr results \<Rightarrow>
          (case opt of None \<Rightarrow> Inl NullDeref | Some op \<Rightarrow> apply_fn op results))"
| "eval_args [] = Inr []"
| "eval_args (v # vs) =
     (case eval v of Inl e \<Rightarrow> Inl e
      | Inr r \<Rightarrow> (case eval_args vs of Inl e \<Rightarrow> Inl e | Inr rs \<Rightarrow> Inr (r # rs)))"

text \<open>The argument list of the function-call form, separated by commas.\<close>

fun commas :: "string list \<Rightarrow> string" where
  "commas [] = []"
| "commas [s] = s"
| "commas (s # ss) = s @ '','' @ commas ss"

definition brackets :: "bool \<Rightarrow> string \<Rightarrow> string" where
  "brackets b s = (if b then ''('' @ s @ '')'' else s)"

text \<open>
  \<^verbatim>\<open>Value::output\<close> and \<^verbatim>\<open>Expr::output\<close>. The text of a number, \<^verbatim>\<open>os << value\<close>, is
  the stream library's and not the repository's: it is the parameter \<open>fmt\<close>.
\<close>

fun output_node :: "(T \<Rightarrow> string) \<Rightarrow> Node \<Rightarrow> string" where
  "output_node fmt (Value v) = fmt v"
| "output_node fmt (Expr None [a, b]) = ''('' @ output_node fmt a @ ''#'' @ output_node fmt b @ '')''"
| "output_node fmt (Expr None [a]) = ''('' @ ''-'' @ output_node fmt a @ '')''"
| "output_node fmt (Expr None args) = ''op('' @ commas (map (output_node fmt) args) @ '')''"
| "output_node fmt (Expr (Some op) [a, b]) =
     (if infx op \<noteq> []
      then brackets (precedence (Some op) > precedence (operation a)) (output_node fmt a)
           @ infx op
           @ brackets (precedence (Some op) > precedence (operation b)) (output_node fmt b)
      else name op @ ''('' @ commas (map (output_node fmt) [a, b]) @ '')'')"
| "output_node fmt (Expr (Some op) [a]) =
     (if infx op \<noteq> []
      then infx op
           @ brackets (precedence (Some op) > precedence (operation a)) (output_node fmt a)
      else name op @ ''('' @ commas (map (output_node fmt) [a]) @ '')'')"
| "output_node fmt (Expr (Some op) args) =
     name op @ ''('' @ commas (map (output_node fmt) args) @ '')''"

section \<open>Enumerating the tree shapes\<close>

text \<open>
  \<^verbatim>\<open>enumtrees\<close> hands every tree to the callback; the model returns them in the order
  of the calls, as a callback that does not mutate them sees them.
  \<^verbatim>\<open>Value::make()\<close> value-initialises the node, so a fresh leaf holds 0. The trees of
  successive calls share objects: the left subtree \<^verbatim>\<open>t\<close> is the same object for every
  right subtree \<^verbatim>\<open>s\<close>. A callback that assigns values and operations, as the one of
  \<^verbatim>\<open>main\<close> does, therefore finds in a later tree what it assigned in an earlier one;
  the shape is the one listed here.
\<close>

function enumtrees :: "int \<Rightarrow> Node list" where
  "enumtrees nleaves =
     (if nleaves < 1 then []
      else if nleaves = 1 then [Value 0]
      else concat (map (\<lambda>i.
             concat (map (\<lambda>t. map (\<lambda>s. Expr None [t, s]) (enumtrees i))
                         (enumtrees (nleaves - i))))
           [1 .. nleaves - 1]))"
  by pat_completeness auto
termination
  by (relation "measure nat") auto

section \<open>Generators and the two assignment passes\<close>

text \<open>
  \<^verbatim>\<open>generator<P>\<close> holds the iterators \<^verbatim>\<open>cur\<close> and \<^verbatim>\<open>end\<close>; its state is the list of
  the elements from \<^verbatim>\<open>cur\<close> up to \<^verbatim>\<open>end\<close>, and \<^verbatim>\<open>iter(v)\<close> is the whole of \<open>v\<close>.
  \<^verbatim>\<open>next()\<close> returns the element and the advanced generator.
\<close>

fun generator_next :: "'a list \<Rightarrow> failure + ('a \<times> 'a list)" where
  "generator_next [] = Inl (Thrown ''end of iteration'')"
| "generator_next (x # xs) = Inr (x, xs)"

text \<open>
  \<^verbatim>\<open>main\<close> iterates over a \<^verbatim>\<open>vector<int>\<close>: the \<^verbatim>\<open>int\<close> that \<^verbatim>\<open>next()\<close> returns is
  converted to \<open>T\<close> by the assignment \<^verbatim>\<open>v->value = g.next()\<close>.
\<close>

definition next_num :: "int list \<Rightarrow> failure + (T \<times> int list)" where
  "next_num g = (case generator_next g of Inl e \<Rightarrow> Inl e | Inr (x, g') \<Rightarrow> Inr (of_int x, g'))"

text \<open>
  \<^verbatim>\<open>setvalues\<close> and \<^verbatim>\<open>setops\<close> are templates over the generator type: the model takes
  the generator's \<^verbatim>\<open>next\<close> as the parameter \<open>nxt\<close> and threads the generator \<open>g\<close>. The
  mutated tree is returned. The second function of each pair is the loop over
  \<^verbatim>\<open>e->args\<close>.
\<close>

fun setvalues :: "('g \<Rightarrow> failure + (T \<times> 'g)) \<Rightarrow> Node \<Rightarrow> 'g \<Rightarrow> failure + (Node \<times> 'g)"
  and setvalues_args ::
    "('g \<Rightarrow> failure + (T \<times> 'g)) \<Rightarrow> Node list \<Rightarrow> 'g \<Rightarrow> failure + (Node list \<times> 'g)" where
  "setvalues nxt (Value v) g =
     (case nxt g of Inl e \<Rightarrow> Inl e | Inr (x, g') \<Rightarrow> Inr (Value x, g'))"
| "setvalues nxt (Expr opt args) g =
     (case setvalues_args nxt args g of Inl e \<Rightarrow> Inl e
      | Inr (args', g') \<Rightarrow> Inr (Expr opt args', g'))"
| "setvalues_args nxt [] g = Inr ([], g)"
| "setvalues_args nxt (a # as) g =
     (case setvalues nxt a g of Inl e \<Rightarrow> Inl e
      | Inr (a', g') \<Rightarrow>
          (case setvalues_args nxt as g' of Inl e \<Rightarrow> Inl e
           | Inr (as', g'') \<Rightarrow> Inr (a' # as', g'')))"

fun setops :: "('g \<Rightarrow> failure + (Operation \<times> 'g)) \<Rightarrow> Node \<Rightarrow> 'g \<Rightarrow> failure + (Node \<times> 'g)"
  and setops_args ::
    "('g \<Rightarrow> failure + (Operation \<times> 'g)) \<Rightarrow> Node list \<Rightarrow> 'g \<Rightarrow> failure + (Node list \<times> 'g)"
  where
  "setops nxt (Value v) g = Inr (Value v, g)"
| "setops nxt (Expr opt args) g =
     (if length args = 2
      then (case nxt g of Inl e \<Rightarrow> Inl e
            | Inr (op, g') \<Rightarrow>
                (case setops_args nxt args g' of Inl e \<Rightarrow> Inl e
                 | Inr (args', g'') \<Rightarrow> Inr (Expr (Some op) args', g'')))
      else (case setops_args nxt args g of Inl e \<Rightarrow> Inl e
            | Inr (args', g') \<Rightarrow> Inr (Expr opt args', g')))"
| "setops_args nxt [] g = Inr ([], g)"
| "setops_args nxt (a # as) g =
     (case setops nxt a g of Inl e \<Rightarrow> Inl e
      | Inr (a', g') \<Rightarrow>
          (case setops_args nxt as g' of Inl e \<Rightarrow> Inl e
           | Inr (as', g'') \<Rightarrow> Inr (a' # as', g'')))"

text \<open>
  \<^verbatim>\<open>struct OpsGenerator\<close>. In \<^verbatim>\<open>cur % ops.size()\<close> and \<^verbatim>\<open>cur /= ops.size()\<close> the
  \<^verbatim>\<open>int\<close> is converted to the unsigned 64-bit \<^verbatim>\<open>size_t\<close> (\<open>mod 2^64\<close>), and the quotient
  is converted back to the 32-bit \<^verbatim>\<open>int\<close> (\<open>signed_take_bit 31\<close>). An empty \<^verbatim>\<open>ops\<close>
  divides by zero.
\<close>

record OpsGenerator =
  ops :: "Operation list"
  cur :: int

definition OpsGenerator_next :: "OpsGenerator \<Rightarrow> failure + (Operation \<times> OpsGenerator)" where
  "OpsGenerator_next g =
     (let sz = int (length (ops g)); u = cur g mod 2 ^ 64
      in if sz = 0 then Inl DivideByZero
         else Inr (ops g ! nat (u mod sz), g\<lparr>cur := signed_take_bit 31 (u div sz)\<rparr>))"

section \<open>The search loop of \<^verbatim>\<open>main\<close>\<close>

text \<open>
  What one pass of the loop body reports: the result and the rendering of every line it
  prints. Without a target every line is printed, with one the lines whose result is
  within 0.11 of it; the literal 0.11 is taken as the real number. A pass whose result
  is the double \<open>None\<close> is recorded with that result: its value, and with a target
  whether its line is printed, are outside the model.
\<close>

type_synonym report = "T option \<times> string"

definition iteration ::
  "(T \<Rightarrow> string) \<Rightarrow> Operation list \<Rightarrow> int list \<Rightarrow> int option \<Rightarrow> Node \<Rightarrow> int
     \<Rightarrow> failure + (Node \<times> report list)" where
  "iteration fmt binops nums target expr i =
     (case setvalues next_num expr nums of Inl e \<Rightarrow> Inl e
      | Inr (expr1, inums) \<Rightarrow>
          (case setops OpsGenerator_next expr1 \<lparr>ops = binops, cur = i\<rparr> of Inl e \<Rightarrow> Inl e
           | Inr (expr2, iops) \<Rightarrow>
               (case eval expr2 of
                  Inl e \<Rightarrow> Inl e
                | Inr None \<Rightarrow> Inr (expr2, [(None, output_node fmt expr2)])
                | Inr (Some result) \<Rightarrow>
                    Inr (expr2,
                      if (case target of None \<Rightarrow> True
                          | Some tg \<Rightarrow> \<bar>result - of_int tg\<bar> \<le> 11 / 100)
                      then [(Some result, output_node fmt expr2)] else []))))"

text \<open>
  The \<^verbatim>\<open>for\<close> loop over \<open>i\<close>, from the current \<open>i\<close> on. The same tree object \<open>expr\<close> is
  mutated by every pass, so each pass starts from the tree the pass before left.
\<close>

definition loop_bound :: "Operation list \<Rightarrow> int list \<Rightarrow> int" where
  "loop_bound binops nums =
     intpow (signed_take_bit 31 (int (length binops)))
            (signed_take_bit 31 (int (length nums) - 1))"

function main_loop ::
  "(T \<Rightarrow> string) \<Rightarrow> Operation list \<Rightarrow> int list \<Rightarrow> int option \<Rightarrow> int \<Rightarrow> Node
     \<Rightarrow> failure + (Node \<times> report list)" where
  "main_loop fmt binops nums target i expr =
     (if i < loop_bound binops nums
      then (case iteration fmt binops nums target expr i of Inl e \<Rightarrow> Inl e
            | Inr (expr', out) \<Rightarrow>
                (case main_loop fmt binops nums target (i + 1) expr' of Inl e \<Rightarrow> Inl e
                 | Inr (expr'', outs) \<Rightarrow> Inr (expr'', out @ outs)))
      else Inr (expr, []))"
  by pat_completeness auto
termination
  by (relation "measure (\<lambda>(fmt, binops, nums, target, i, expr). nat (loop_bound binops nums - i))")
     auto

section \<open>Notions the statements use\<close>

text \<open>The leaves of a tree in pre-order, children left to right, and their number.\<close>

fun values_of :: "Node \<Rightarrow> T list" where
  "values_of (Value v) = [v]"
| "values_of (Expr opt args) = concat (map values_of args)"

fun nleaves :: "Node \<Rightarrow> nat" where
  "nleaves (Value v) = 1"
| "nleaves (Expr opt args) = sum_list (map nleaves args)"

text \<open>
  The operation pointers of the internal nodes with exactly two children, in pre-order
  (a node before its children), and the number of these nodes.
\<close>

fun binops_of :: "Node \<Rightarrow> Operation option list" where
  "binops_of (Value v) = []"
| "binops_of (Expr opt args) =
     (if length args = 2 then [opt] else []) @ concat (map binops_of args)"

fun nbin :: "Node \<Rightarrow> nat" where
  "nbin (Value v) = 0"
| "nbin (Expr opt args) = (if length args = 2 then 1 else 0) + sum_list (map nbin args)"

text \<open>
  A tree with every leaf value blanked, and a tree with the operation of every
  two-child node blanked: two trees agree on everything but the leaf values when their
  \<open>erase_values\<close> are equal, and on everything but the operations of the two-child
  nodes when their \<open>erase_binops\<close> are equal.
\<close>

fun erase_values :: "Node \<Rightarrow> Node" where
  "erase_values (Value v) = Value 0"
| "erase_values (Expr opt args) = Expr opt (map erase_values args)"

fun erase_binops :: "Node \<Rightarrow> Node" where
  "erase_binops (Value v) = Value v"
| "erase_binops (Expr opt args) =
     Expr (if length args = 2 then None else opt) (map erase_binops args)"

definition blank :: "Node \<Rightarrow> Node" where
  "blank t = erase_binops (erase_values t)"

text \<open>A skeleton: fresh leaves and two-child internal nodes without an operation.\<close>

fun skeleton :: "Node \<Rightarrow> bool" where
  "skeleton (Value v) = (v = 0)"
| "skeleton (Expr None [l, r]) = (skeleton l \<and> skeleton r)"
| "skeleton (Expr opt args) = False"

text \<open>The Catalan numbers, \<open>C\<^sub>k = (2k choose k) / (k + 1)\<close>: 1, 1, 2, 5, 14, ...\<close>

definition catalan :: "nat \<Rightarrow> nat" where
  "catalan k = (2 * k choose k) div (k + 1)"

text \<open>The digit of weight \<open>r^k\<close> of \<open>i\<close> written in radix \<open>r\<close>.\<close>

definition digit :: "nat \<Rightarrow> nat \<Rightarrow> nat \<Rightarrow> nat" where
  "digit r i k = (i div r ^ k) mod r"

text \<open>The tree that \<^verbatim>\<open>setops\<close> leaves when it is run with \<^verbatim>\<open>OpsGenerator(ops, i)\<close>.\<close>

definition assign_ops :: "Operation list \<Rightarrow> Node \<Rightarrow> int \<Rightarrow> failure + Node" where
  "assign_ops binops t i =
     (case setops OpsGenerator_next t \<lparr>ops = binops, cur = i\<rparr> of Inl e \<Rightarrow> Inl e
      | Inr (t', g) \<Rightarrow> Inr t')"

text \<open>Every internal node has an operation.\<close>

fun assigned :: "Node \<Rightarrow> bool" where
  "assigned (Value v) = True"
| "assigned (Expr opt args) = (opt \<noteq> None \<and> list_all assigned args)"

text \<open>
  An operation accepts \<open>k\<close> arguments: it takes no more than \<open>k\<close>, and on \<open>k\<close> reals its
  function returns, with a value or with \<open>NonFinite\<close>. The arity invariant of the data
  model: every operation in the tree accepts the children of its node.
\<close>

definition accepts :: "Operation \<Rightarrow> nat \<Rightarrow> bool" where
  "accepts op k =
     (n op \<le> int k
      \<and> (\<forall>vs. length vs = k \<longrightarrow> (\<exists>x. fn op vs = Inr x) \<or> fn op vs = Inl NonFinite))"

fun arity_kept :: "Node \<Rightarrow> bool" where
  "arity_kept (Value v) = True"
| "arity_kept (Expr opt args) =
     ((case opt of None \<Rightarrow> True | Some op \<Rightarrow> accepts op (length args))
      \<and> list_all arity_kept args)"

text \<open>An outcome is a raised error when it is a thrown exception.\<close>

fun raised :: "failure + 'a \<Rightarrow> bool" where
  "raised (Inl (Thrown msg)) = True"
| "raised r = False"

text \<open>
  The loop as the specification words it: every pass works on a fresh copy of the
  shape, and nothing a pass assigns is seen by another.
\<close>

function main_loop_cloned ::
  "(T \<Rightarrow> string) \<Rightarrow> Operation list \<Rightarrow> int list \<Rightarrow> int option \<Rightarrow> int \<Rightarrow> Node
     \<Rightarrow> failure + report list" where
  "main_loop_cloned fmt binops nums target i shape =
     (if i < loop_bound binops nums
      then (case iteration fmt binops nums target shape i of Inl e \<Rightarrow> Inl e
            | Inr (expr', out) \<Rightarrow>
                (case main_loop_cloned fmt binops nums target (i + 1) shape of Inl e \<Rightarrow> Inl e
                 | Inr outs \<Rightarrow> Inr (out @ outs)))
      else Inr [])"
  by pat_completeness auto
termination
  by (relation "measure (\<lambda>(fmt, binops, nums, target, i, shape). nat (loop_bound binops nums - i))")
     auto

text \<open>
  A number formatter for the scenarios: the decimal digits of an integral value, which
  is also what the stream prints for an integral double of magnitude below \<open>10^6\<close>.
\<close>

fun show_nat :: "nat \<Rightarrow> string" where
  "show_nat k =
     (if k < 10 then [''0123456789'' ! k]
      else show_nat (k div 10) @ [''0123456789'' ! (k mod 10)])"

definition show_integral :: "T \<Rightarrow> string" where
  "show_integral x =
     (if x < 0 then ''-'' @ show_nat (nat \<lfloor>- x\<rfloor>) else show_nat (nat \<lfloor>x\<rfloor>))"

text \<open>
  The Catalan numbers as reals, their convolution and its weighted form, for the proof
  that the convolution recurrence of the shape count has the closed form.
\<close>

definition Cr :: "nat \<Rightarrow> real" where
  "Cr k = real (2 * k choose k) / (real k + 1)"

definition Sc :: "nat \<Rightarrow> real" where
  "Sc m = (\<Sum>i\<le>m. Cr i * Cr (m - i))"

definition Tc :: "nat \<Rightarrow> real" where
  "Tc m = (\<Sum>i\<le>m. real i * (Cr i * Cr (m - i)))"

declare intpow_loop.simps [simp del]
declare tenfactor_loop.simps [simp del]
declare enumtrees.simps [simp del]
declare main_loop.simps [simp del]
declare main_loop_cloned.simps [simp del]
declare show_nat.simps [simp del]

section \<open>The shapes that are enumerated\<close>

lemma enumtrees_small: "enumtrees 0 = []" "enumtrees 1 = [Value 0]"
  by (simp_all add: enumtrees.simps)

lemma distinct_concat_map:
  "distinct xs \<Longrightarrow> (\<And>x. x \<in> set xs \<Longrightarrow> distinct (f x)) \<Longrightarrow>
   (\<And>x y. x \<in> set xs \<Longrightarrow> y \<in> set xs \<Longrightarrow> x \<noteq> y \<Longrightarrow> set (f x) \<inter> set (f y) = {}) \<Longrightarrow>
   distinct (concat (map f xs))"
proof (induction xs)
  case Nil
  then show ?case by simp
next
  case (Cons a xs)
  have "distinct (concat (map f xs))"
    using Cons by auto
  moreover have "distinct (f a)" using Cons.prems by simp
  moreover have "set (f a) \<inter> set (concat (map f xs)) = {}"
    using Cons.prems by fastforce
  ultimately show ?case by simp
qed

lemma skeleton_nleaves: "skeleton t \<Longrightarrow> 1 \<le> nleaves t"
  by (induction t rule: skeleton.induct) auto

lemma skeleton_cases:
  "skeleton t \<Longrightarrow> t = Value 0 \<or> (\<exists>l r. t = Expr None [l, r] \<and> skeleton l \<and> skeleton r)"
  by (induction t rule: skeleton.induct) auto

lemma enumtrees_rec:
  "2 \<le> N \<Longrightarrow> enumtrees N =
     concat (map (\<lambda>i. concat (map (\<lambda>t. map (\<lambda>s. Expr None [t, s]) (enumtrees i))
                         (enumtrees (N - i)))) [1 .. N - 1])"
  by (subst enumtrees.simps) simp

lemma in_enumtrees_iff:
  "2 \<le> N \<Longrightarrow> t \<in> set (enumtrees N) \<longleftrightarrow>
     (\<exists>i\<in>{1 .. N - 1}. \<exists>l\<in>set (enumtrees (N - i)). \<exists>r\<in>set (enumtrees i). t = Expr None [l, r])"
  by (auto simp: enumtrees_rec)

lemma set_enumtrees: "set (enumtrees N) = {t. skeleton t \<and> int (nleaves t) = N}"
proof (induction "nat N" arbitrary: N rule: less_induct)
  case less
  consider "N < 1" | "N = 1" | "2 \<le> N" by linarith
  then show ?case
  proof cases
    case 1
    have "\<And>t. skeleton t \<Longrightarrow> 1 \<le> int (nleaves t)"
      using skeleton_nleaves by fastforce
    with 1 show ?thesis
      by (subst enumtrees.simps) fastforce
  next
    case 2
    have "\<And>t. skeleton t \<Longrightarrow> nleaves t = 1 \<Longrightarrow> t = Value 0"
    proof -
      fix t assume a: "skeleton t" "nleaves t = 1"
      from skeleton_cases[OF a(1)] show "t = Value 0"
      proof
        assume "t = Value 0" then show ?thesis .
      next
        assume "\<exists>l r. t = Expr None [l, r] \<and> skeleton l \<and> skeleton r"
        then obtain l r where t: "t = Expr None [l, r]" "skeleton l" "skeleton r" by blast
        then have "1 \<le> nleaves l" "1 \<le> nleaves r" using skeleton_nleaves by auto
        with t a(2) show ?thesis by simp
      qed
    qed
    with 2 show ?thesis
      by (subst enumtrees.simps) auto
  next
    case 3
    have IH: "\<And>M. M < N \<Longrightarrow> set (enumtrees M) = {t. skeleton t \<and> int (nleaves t) = M}"
      using less 3 by (simp add: nat_less_iff)
    show ?thesis
    proof (intro set_eqI iffI)
      fix t assume "t \<in> set (enumtrees N)"
      then obtain i l r where i: "1 \<le> i" "i \<le> N - 1" and l: "l \<in> set (enumtrees (N - i))"
        and r: "r \<in> set (enumtrees i)" and t: "t = Expr None [l, r]"
        using 3 by (auto simp: in_enumtrees_iff)
      from l i IH[of "N - i"] have "skeleton l" "int (nleaves l) = N - i" by auto
      moreover from r i IH[of i] have "skeleton r" "int (nleaves r) = i" by auto
      ultimately show "t \<in> {t. skeleton t \<and> int (nleaves t) = N}"
        using t by simp
    next
      fix t assume "t \<in> {t. skeleton t \<and> int (nleaves t) = N}"
      then have sk: "skeleton t" and nl: "int (nleaves t) = N" by auto
      from skeleton_cases[OF sk] 3 nl obtain l r where
        t: "t = Expr None [l, r]" "skeleton l" "skeleton r" by auto
      then have ge: "1 \<le> nleaves l" "1 \<le> nleaves r" using skeleton_nleaves by auto
      define i where "i = int (nleaves r)"
      have i: "1 \<le> i" "i \<le> N - 1" "int (nleaves l) = N - i"
        using ge nl t by (auto simp: i_def)
      have "l \<in> set (enumtrees (N - i))" using IH[of "N - i"] i t by auto
      moreover have "r \<in> set (enumtrees i)" using IH[of i] i t by (auto simp: i_def)
      moreover have "i \<in> {1 .. N - 1}" using i by simp
      ultimately show "t \<in> set (enumtrees N)"
        unfolding in_enumtrees_iff[OF 3] using t(1) by blast
    qed
  qed
qed

lemma distinct_enumtrees: "distinct (enumtrees N)"
proof (induction "nat N" arbitrary: N rule: less_induct)
  case less
  consider "N < 1" | "N = 1" | "2 \<le> N" by linarith
  then show ?case
  proof cases
    case 1
    then show ?thesis by (subst enumtrees.simps) auto
  next
    case 2
    then show ?thesis by (subst enumtrees.simps) auto
  next
    case 3
    have IH: "\<And>M. M < N \<Longrightarrow> distinct (enumtrees M)"
      using less 3 by (simp add: nat_less_iff)
    let ?g = "\<lambda>i t. map (\<lambda>s. Expr None [t, s]) (enumtrees i)"
    let ?f = "\<lambda>i. concat (map (?g i) (enumtrees (N - i)))"
    have inner: "distinct (?f i)" if "i \<in> set [1 .. N - 1]" for i
    proof (rule distinct_concat_map)
      show "distinct (enumtrees (N - i))" using IH[of "N - i"] that by simp
    next
      fix t show "distinct (?g i t)"
        using IH[of i] that by (simp add: distinct_map inj_on_def)
    next
      fix t u :: Node assume "t \<noteq> u"
      then show "set (?g i t) \<inter> set (?g i u) = {}" by auto
    qed
    have "distinct (concat (map ?f [1 .. N - 1]))"
    proof (rule distinct_concat_map)
      show "distinct [1 .. N - 1]" by simp
    next
      fix i assume "i \<in> set [1 .. N - 1]" then show "distinct (?f i)" by (rule inner)
    next
      fix i j assume ij: "i \<in> set [1 .. N - 1]" "j \<in> set [1 .. N - 1]" "i \<noteq> j"
      show "set (?f i) \<inter> set (?f j) = {}"
      proof (rule ccontr)
        assume "set (?f i) \<inter> set (?f j) \<noteq> {}"
        then obtain t where "t \<in> set (?f i)" "t \<in> set (?f j)" by blast
        then obtain l r l' r' where "t = Expr None [l, r]" "r \<in> set (enumtrees i)"
          "t = Expr None [l', r']" "r' \<in> set (enumtrees j)" by auto
        then have "r \<in> set (enumtrees i)" "r \<in> set (enumtrees j)" by auto
        then have "int (nleaves r) = i" "int (nleaves r) = j"
          by (auto simp: set_enumtrees)
        with ij show False by simp
      qed
    qed
    then show ?thesis using 3 by (simp add: enumtrees_rec)
  qed
qed

lemma Cr_0: "Cr 0 = 1" by (simp add: Cr_def)

lemma ratio_algebra:
  fixes x F f :: real
  assumes "0 \<le> x" "f \<noteq> 0"
  shows "(x + 2) * (((2 * x + 2) * (2 * x + 1) * F) / (((x + 1) * f) * ((x + 1) * f)) / (x + 1 + 1))
       = (4 * x + 2) * (F / (f * f) / (x + 1))"
proof -
  have nz: "x + 1 \<noteq> 0" "x + 2 \<noteq> 0" using assms(1) by linarith+
  have "(x + 2) * (((2 * x + 2) * (2 * x + 1) * F) / (((x + 1) * f) * ((x + 1) * f)) / (x + 1 + 1))
      = ((2 * x + 2) * (2 * x + 1) * F) / (((x + 1) * f) * ((x + 1) * f))"
    using nz by (simp add: add.assoc)
  also have "\<dots> = ((x + 1) * (2 * (2 * x + 1) * F)) / ((x + 1) * ((x + 1) * (f * f)))"
    by (simp add: algebra_simps)
  also have "\<dots> = (2 * (2 * x + 1) * F) / ((x + 1) * (f * f))"
    by (rule mult_divide_mult_cancel_left) (rule nz(1))
  also have "\<dots> = (4 * x + 2) * (F / (f * f) / (x + 1))"
    using nz assms(2) by (simp add: field_simps)
  finally show ?thesis .
qed

lemma Cr_ratio: "(real k + 2) * Cr (Suc k) = (4 * real k + 2) * Cr k"
proof -
  have e: "2 * k - k = k" "2 * Suc k - Suc k = Suc k" by simp_all
  have a: "real (2 * k choose k) = fact (2 * k) / (fact k * fact (2 * k - k))"
    by (rule binomial_fact) simp
  have b: "real (2 * Suc k choose Suc k) = fact (2 * Suc k) / (fact (Suc k) * fact (2 * Suc k - Suc k))"
    by (rule binomial_fact) simp
  have s: "2 * Suc k = Suc (Suc (2 * k))" by simp
  have c: "(fact (2 * Suc k) :: real) = (2 * real k + 2) * (2 * real k + 1) * fact (2 * k)"
    unfolding s fact_Suc by (simp add: algebra_simps)
  have d: "(fact (Suc k) :: real) = (real k + 1) * fact k"
    unfolding fact_Suc by (simp add: algebra_simps)
  have r: "real (Suc k) = real k + 1" by simp
  have "(real k + 2) * ((((2 * real k + 2) * (2 * real k + 1) * fact (2 * k)) / (((real k + 1) * fact k) * ((real k + 1) * fact k))) / (real k + 1 + 1))
       = (4 * real k + 2) * (fact (2 * k) / (fact k * fact k) / (real k + 1))"
    by (rule ratio_algebra) simp_all
  then show ?thesis
    unfolding Cr_def a b e c d r .
qed


lemma Tc_half: "2 * Tc m = real m * Sc m"
proof -
  have "Tc m = (\<Sum>i<Suc m. real (m - i) * (Cr (m - i) * Cr (m - (m - i))))"
    unfolding Tc_def lessThan_Suc_atMost[symmetric]
    using sum.nat_diff_reindex[of "\<lambda>i. real i * (Cr i * Cr (m - i))" "Suc m"] by simp
  also have "\<dots> = (\<Sum>i\<le>m. real (m - i) * (Cr i * Cr (m - i)))"
    unfolding lessThan_Suc_atMost by (rule sum.cong) (auto simp: mult.commute)
  finally have "Tc m + Tc m = (\<Sum>i\<le>m. real i * (Cr i * Cr (m - i)) + real (m - i) * (Cr i * Cr (m - i)))"
    by (simp add: Tc_def sum.distrib)
  also have "\<dots> = (\<Sum>i\<le>m. real m * (Cr i * Cr (m - i)))"
    by (rule sum.cong) (auto simp: algebra_simps of_nat_diff)
  also have "\<dots> = real m * Sc m"
    by (simp add: Sc_def sum_distrib_left)
  finally show ?thesis by simp
qed

lemma Sc_step: "(real m + 3) * Sc (Suc m) = 2 * ((2 * real m + 2) * Sc m + Cr (Suc m))"
proof -
  have "(\<Sum>i\<le>m. (real i + 2) * Cr (Suc i) * Cr (m - i)) = (\<Sum>i\<le>m. (4 * real i + 2) * Cr i * Cr (m - i))"
    by (rule sum.cong) (auto simp: Cr_ratio)
  also have "\<dots> = (\<Sum>i\<le>m. 4 * (real i * (Cr i * Cr (m - i))) + 2 * (Cr i * Cr (m - i)))"
    by (rule sum.cong) (auto simp: algebra_simps)
  also have "\<dots> = 4 * Tc m + 2 * Sc m"
    by (simp add: Tc_def Sc_def sum.distrib sum_distrib_left)
  also have "\<dots> = (2 * real m + 2) * Sc m"
    using Tc_half[of m] by (simp add: algebra_simps)
  finally have lhs: "(\<Sum>i\<le>m. (real i + 2) * Cr (Suc i) * Cr (m - i)) = (2 * real m + 2) * Sc m" .
  have "Tc (Suc m) + Sc (Suc m) = (\<Sum>i\<le>Suc m. (real i + 1) * Cr i * Cr (Suc m - i))"
    unfolding Tc_def Sc_def sum.distrib[symmetric]
    by (rule sum.cong) (auto simp: algebra_simps)
  also have "\<dots> = Cr (Suc m) + (\<Sum>i\<le>m. (real (Suc i) + 1) * Cr (Suc i) * Cr (Suc m - Suc i))"
    by (subst sum.atMost_Suc_shift) (simp add: Cr_0)
  also have "(\<Sum>i\<le>m. (real (Suc i) + 1) * Cr (Suc i) * Cr (Suc m - Suc i))
      = (\<Sum>i\<le>m. (real i + 2) * Cr (Suc i) * Cr (m - i))"
    by (rule sum.cong) (auto simp: algebra_simps)
  finally have "Tc (Suc m) + Sc (Suc m) = Cr (Suc m) + (2 * real m + 2) * Sc m"
    using lhs by simp
  then show ?thesis
    using Tc_half[of "Suc m"] by (simp add: algebra_simps)
qed

lemma Sc_Cr: "Sc m = Cr (Suc m)"
proof (induction m)
  case 0
  have "Cr (Suc 0) = 1" by (simp add: Cr_def)
  then show ?case by (simp add: Sc_def Cr_0)
next
  case (Suc m)
  have "(real m + 3) * Sc (Suc m) = 2 * ((2 * real m + 3) * Cr (Suc m))"
    using Sc_step[of m] Suc by (simp add: algebra_simps)
  also have "\<dots> = (4 * real (Suc m) + 2) * Cr (Suc m)" by (simp add: algebra_simps)
  also have "\<dots> = (real (Suc m) + 2) * Cr (Suc (Suc m))" by (rule Cr_ratio[symmetric])
  finally have "(real m + 3) * Sc (Suc m) = (real m + 3) * Cr (Suc (Suc m))"
    by (simp add: algebra_simps)
  then show ?case by simp
qed

lemma length_enumtrees_rec:
  "length (enumtrees (int (Suc m) + 1)) =
     (\<Sum>i\<le>m. length (enumtrees (int i + 1)) * length (enumtrees (int (m - i) + 1)))"
proof -
  let ?N = "int (Suc m) + 1"
  let ?h = "\<lambda>i. length (enumtrees (?N - i)) * length (enumtrees i)"
  have "length (enumtrees ?N) = sum_list (map ?h [1 .. ?N - 1])"
    by (subst enumtrees_rec) (simp_all add: length_concat comp_def sum_list_triv mult.commute)
  also have "\<dots> = sum ?h (set [1 .. ?N - 1])"
    by (simp add: sum_list_distinct_conv_sum_set)
  also have "\<dots> = (\<Sum>i\<le>m. ?h (int i + 1))"
    by (rule sum.reindex_bij_witness[where i = "\<lambda>i. int i + 1" and j = "\<lambda>i. nat (i - 1)"])
       auto
  also have "\<dots> = (\<Sum>i\<le>m. length (enumtrees (int i + 1)) * length (enumtrees (int (m - i) + 1)))"
  proof (rule sum.cong)
    fix i assume "i \<in> {..m}"
    then have "?N - (int i + 1) = int (m - i) + 1" by (simp add: of_nat_diff)
    then show "?h (int i + 1) = length (enumtrees (int i + 1)) * length (enumtrees (int (m - i) + 1))"
      by (simp only: mult.commute)
  qed simp
  finally show ?thesis .
qed

lemma length_enumtrees_Cr: "real (length (enumtrees (int m + 1))) = Cr m"
proof (induction m rule: less_induct)
  case (less m)
  show ?case
  proof (cases m)
    case 0
    then show ?thesis by (simp add: enumtrees.simps Cr_0)
  next
    case (Suc k)
    have "real (length (enumtrees (int (Suc k) + 1))) =
        (\<Sum>i\<le>k. real (length (enumtrees (int i + 1))) * real (length (enumtrees (int (k - i) + 1))))"
      by (simp only: length_enumtrees_rec of_nat_sum of_nat_mult)
    also have "\<dots> = (\<Sum>i\<le>k. Cr i * Cr (k - i))"
    proof (rule sum.cong)
      fix i assume "i \<in> {..k}"
      then have "i < m" "k - i < m" using Suc by auto
      then show "real (length (enumtrees (int i + 1))) * real (length (enumtrees (int (k - i) + 1)))
          = Cr i * Cr (k - i)"
        by (simp only: less)
    qed simp
    also have "\<dots> = Cr (Suc k)" using Sc_Cr[of k] by (simp add: Sc_def)
    finally show ?thesis using Suc by simp
  qed
qed

lemma length_enumtrees: "1 \<le> N \<Longrightarrow> length (enumtrees N) = catalan (nat (N - 1))"
proof -
  assume N: "1 \<le> N"
  define m where "m = nat (N - 1)"
  have N': "N = int m + 1" using N by (simp add: m_def)
  have nz: "real m + 1 \<noteq> 0" using of_nat_0_le_iff[of m, where ?'a = real] by linarith
  have "real (length (enumtrees N)) * (real m + 1) = real (2 * m choose m)"
    using length_enumtrees_Cr[of m] nz by (simp add: N' Cr_def)
  then have "real (length (enumtrees N) * (m + 1)) = real (2 * m choose m)"
    by (simp add: algebra_simps)
  then have "length (enumtrees N) * (m + 1) = (2 * m choose m)"
    by (simp only: of_nat_eq_iff)
  then have "(2 * m choose m) div (m + 1) = length (enumtrees N) * (m + 1) div (m + 1)"
    by simp
  also have "\<dots> = length (enumtrees N)"
    by (rule nonzero_mult_div_cancel_right) simp
  finally have "(2 * m choose m) div (m + 1) = length (enumtrees N)" .
  then show ?thesis by (simp add: catalan_def m_def)
qed

text \<open>
  C1. For \<open>N \<ge> 1\<close> the enumeration delivers as many skeletons as the Catalan number
  \<open>catalan (N - 1)\<close> (the \<open>N\<close>-th of the sequence 1, 1, 2, 5, 14, ... counted from one),
  no two of them equal, and they are exactly the skeletons with \<open>N\<close> leaves. For
  \<open>N \<ge> 2\<close> each delivered skeleton comes from exactly one split \<open>k\<close> between 1 and
  \<open>N - 1\<close>, as a left subtree with \<open>N - k\<close> leaves and a right subtree with \<open>k\<close> leaves.
  For \<open>N < 1\<close> nothing is delivered.
\<close>

theorem enumtrees_catalan:
  "(N < 1 \<longrightarrow> enumtrees N = []) \<and>
   (1 \<le> N \<longrightarrow>
      length (enumtrees N) = catalan (nat (N - 1)) \<and>
      distinct (enumtrees N) \<and>
      set (enumtrees N) = {t. skeleton t \<and> int (nleaves t) = N}) \<and>
   (2 \<le> N \<longrightarrow>
      (\<forall>t \<in> set (enumtrees N).
         \<exists>!k. 1 \<le> k \<and> k \<le> N - 1 \<and>
           (\<exists>l \<in> set (enumtrees (N - k)). \<exists>r \<in> set (enumtrees k). t = Expr None [l, r])))"
proof (intro conjI impI ballI)
  assume "N < 1"
  then show "enumtrees N = []" by (subst enumtrees.simps) simp
next
  assume "1 \<le> N"
  then show "length (enumtrees N) = catalan (nat (N - 1))" by (rule length_enumtrees)
next
  show "distinct (enumtrees N)" by (rule distinct_enumtrees)
next
  show "set (enumtrees N) = {t. skeleton t \<and> int (nleaves t) = N}" by (rule set_enumtrees)
next
  fix t assume N: "2 \<le> N" and t: "t \<in> set (enumtrees N)"
  let ?P = "\<lambda>k. 1 \<le> k \<and> k \<le> N - 1 \<and>
     (\<exists>l \<in> set (enumtrees (N - k)). \<exists>r \<in> set (enumtrees k). t = Expr None [l, r])"
  from t obtain k where k: "?P k"
    unfolding in_enumtrees_iff[OF N] by auto
  have "j = k" if "?P j" for j
  proof -
    from that obtain l r where "r \<in> set (enumtrees j)" "t = Expr None [l, r]" by blast
    moreover from k obtain l' r' where "r' \<in> set (enumtrees k)" "t = Expr None [l', r']" by blast
    ultimately have "r \<in> set (enumtrees j)" "r \<in> set (enumtrees k)" by auto
    then have "int (nleaves r) = j" "int (nleaves r) = k" by (auto simp: set_enumtrees)
    then show ?thesis by simp
  qed
  with k show "\<exists>!k. ?P k" by blast
qed

theorem enumtrees_catalan_witness:
  "length (enumtrees 4) = 5 \<and> distinct (enumtrees 4) \<and>
   set (enumtrees 4) = {t. skeleton t \<and> int (nleaves t) = 4} \<and>
   (\<exists>!k. 1 \<le> k \<and> k \<le> 4 - 1 \<and>
      (\<exists>l \<in> set (enumtrees (4 - k)). \<exists>r \<in> set (enumtrees k).
         Expr None [Value 0, Expr None [Expr None [Value 0, Value 0], Value 0]]
           = Expr None [l, r])) \<and>
   enumtrees 0 = []"
proof -
  have c: "catalan (nat (4 - 1)) = 5" by code_simp
  have B: "length (enumtrees 4) = catalan (nat (4 - 1)) \<and> distinct (enumtrees 4) \<and>
      set (enumtrees 4) = {t. skeleton t \<and> int (nleaves t) = 4}"
    by (rule mp[OF enumtrees_catalan[of 4, THEN conjunct2, THEN conjunct1]]) simp
  have C: "\<forall>t \<in> set (enumtrees 4).
      \<exists>!k. 1 \<le> k \<and> k \<le> 4 - 1 \<and>
        (\<exists>l \<in> set (enumtrees (4 - k)). \<exists>r \<in> set (enumtrees k). t = Expr None [l, r])"
    by (rule mp[OF enumtrees_catalan[of 4, THEN conjunct2, THEN conjunct2]]) simp
  have mem: "Expr None [Value 0, Expr None [Expr None [Value 0, Value 0], Value 0]]
      \<in> set (enumtrees 4)"
    unfolding B[THEN conjunct2, THEN conjunct2] by simp
  have A: "enumtrees 0 = []"
    by (rule mp[OF enumtrees_catalan[of 0, THEN conjunct1]]) simp
  show ?thesis
    using B[THEN conjunct1] B[THEN conjunct2] c bspec[OF C mem] A by (intro conjI) simp_all
qed

section \<open>The concatenation operation\<close>

lemma tenfactor_loop_spec:
  "0 \<le> i \<Longrightarrow> i \<le> 20 \<Longrightarrow> f = 10 ^ nat i \<Longrightarrow>
   \<exists>k. nat i \<le> k \<and> k \<le> 20 \<and> tenfactor_loop x f i = 10 ^ k \<and>
       (\<forall>j. nat i \<le> j \<and> j < k \<longrightarrow> 10 ^ j \<le> x) \<and> (k < 20 \<longrightarrow> x < 10 ^ k)"
proof (induction x f i rule: tenfactor_loop.induct)
  case (1 x f i)
  show ?case
  proof (cases "i < 20 \<and> x \<ge> f")
    case True
    have f10: "f * 10 = 10 ^ nat (i + 1)"
      using 1(2,4) by (simp add: nat_add_distrib)
    from 1(1)[OF True _ _ f10] 1(2) True obtain k where
      k: "nat (i + 1) \<le> k" "k \<le> 20" "tenfactor_loop x (f * 10) (i + 1) = 10 ^ k"
         "\<forall>j. nat (i + 1) \<le> j \<and> j < k \<longrightarrow> 10 ^ j \<le> x" "k < 20 \<longrightarrow> x < 10 ^ k"
      by auto
    have "\<forall>j. nat i \<le> j \<and> j < k \<longrightarrow> 10 ^ j \<le> x"
    proof (intro allI impI)
      fix j assume j: "nat i \<le> j \<and> j < k"
      show "10 ^ j \<le> x"
      proof (cases "j = nat i")
        case True
        then show ?thesis using \<open>i < 20 \<and> x \<ge> f\<close> 1(4) by simp
      next
        case False
        then have "nat (i + 1) \<le> j" using j 1(2) by (simp add: nat_add_distrib)
        then show ?thesis using k(4) j by blast
      qed
    qed
    moreover have "nat i \<le> k" using k(1) 1(2) by (simp add: nat_add_distrib)
    moreover have "tenfactor_loop x f i = 10 ^ k"
      using True k(3) by (subst tenfactor_loop.simps) simp
    ultimately show ?thesis using k(2,5) by blast
  next
    case False
    have r: "tenfactor_loop x f i = 10 ^ nat i"
      using False 1(4) by (subst tenfactor_loop.simps) auto
    have "nat i < 20 \<longrightarrow> x < 10 ^ nat i"
      using False 1(2,4) by auto
    moreover have "nat i \<le> 20" using 1(3) by simp
    ultimately show ?thesis using r by (intro exI[of _ "nat i"]) auto
  qed
qed

lemma tenfactor_spec:
  "\<exists>k. k \<le> 20 \<and> tenfactor x = 10 ^ k \<and> (\<forall>j. j < k \<longrightarrow> 10 ^ j \<le> x) \<and> (k < 20 \<longrightarrow> x < 10 ^ k)"
  using tenfactor_loop_spec[of 0 1 x] by (simp add: tenfactor_def)

text \<open>
  C9. The concatenation operation on \<open>[a, b]\<close> returns \<open>a * tenfactor b + b\<close>. The
  factor is a power of ten \<open>10^k\<close> with \<open>k \<le> 20\<close>, reached by multiplying 1 by ten \<open>k\<close>
  times: it is 1 for every \<open>b < 1\<close> (negative \<open>b\<close> included), it is \<open>10^20\<close> for every
  \<open>b \<ge> 10^20\<close>, and below \<open>10^20\<close> it is the smallest power of ten strictly greater
  than \<open>b\<close>.
\<close>

theorem cat_tenfactor:
  "fn op_cat [a, b] = Inr (a * tenfactor b + b) \<and>
   (\<exists>k. k \<le> 20 \<and> tenfactor b = 10 ^ k) \<and>
   (b < 1 \<longrightarrow> tenfactor b = 1) \<and>
   (10 ^ 20 \<le> b \<longrightarrow> tenfactor b = 10 ^ 20) \<and>
   (b < 10 ^ 20 \<longrightarrow> b < tenfactor b \<and> (\<forall>k. b < 10 ^ k \<longrightarrow> tenfactor b \<le> 10 ^ k))"
proof -
  from tenfactor_spec[of b] obtain k where
    k: "k \<le> 20" "tenfactor b = 10 ^ k" "\<forall>j. j < k \<longrightarrow> 10 ^ j \<le> b" "k < 20 \<longrightarrow> b < 10 ^ k"
    by blast
  have cat: "fn op_cat [a, b] = Inr (a * tenfactor b + b)"
    by (simp add: op_cat_def binary_def arg_def)
  have small: "tenfactor b = 1" if "b < 1"
  proof -
    have "k = 0"
    proof (rule ccontr)
      assume "k \<noteq> 0"
      then have "(10::real) ^ 0 \<le> b" using k(3) by blast
      with that show False by simp
    qed
    then show ?thesis using k(2) by simp
  qed
  have big: "tenfactor b = 10 ^ 20" if "10 ^ 20 \<le> b"
  proof -
    have "k = 20"
    proof (rule ccontr)
      assume "k \<noteq> 20"
      then have "k < 20" using k(1) by simp
      then have "b < 10 ^ k" using k(4) by simp
      moreover have "(10::real) ^ k \<le> 10 ^ 20" using k(1) by (intro power_increasing) auto
      ultimately show False using that by simp
    qed
    then show ?thesis using k(2) by simp
  qed
  have mid: "b < tenfactor b \<and> (\<forall>m. b < 10 ^ m \<longrightarrow> tenfactor b \<le> 10 ^ m)" if "b < 10 ^ 20"
  proof
    show "b < tenfactor b"
    proof (cases "k < 20")
      case True
      then show ?thesis using k(2,4) by simp
    next
      case False
      then have "k = 20" using k(1) by simp
      then show ?thesis using that k(2) by simp
    qed
    show "\<forall>m. b < 10 ^ m \<longrightarrow> tenfactor b \<le> 10 ^ m"
    proof (intro allI impI)
      fix m assume m: "b < 10 ^ m"
      have "k \<le> m"
      proof (rule ccontr)
        assume "\<not> k \<le> m"
        then have "10 ^ m \<le> b" using k(3) by simp
        with m show False by simp
      qed
      then have "(10::real) ^ k \<le> 10 ^ m" by (intro power_increasing) auto
      then show "tenfactor b \<le> 10 ^ m" using k(2) by simp
    qed
  qed
  show ?thesis using cat k(1,2) small big mid by blast
qed

theorem cat_tenfactor_witness:
  "fn op_cat [12, 34] = Inr 1234 \<and> tenfactor (- 3) = 1 \<and> tenfactor (10 ^ 20) = 10 ^ 20 \<and>
   34 < tenfactor 34 \<and> tenfactor 34 \<le> 10 ^ 2"
proof -
  have m: "34 < tenfactor 34 \<and> (\<forall>k. 34 < (10::real) ^ k \<longrightarrow> tenfactor 34 \<le> 10 ^ k)"
    by (rule mp[OF cat_tenfactor[of 12 34, THEN conjunct2, THEN conjunct2, THEN conjunct2,
          THEN conjunct2]]) simp
  have "(34::real) < 10 ^ 2" by simp
  with m have le: "tenfactor 34 \<le> 10 ^ 2" by blast
  have ge: "10 ^ 2 \<le> tenfactor 34"
  proof -
    obtain k where k: "tenfactor 34 = 10 ^ k"
      using cat_tenfactor[of 12 34, THEN conjunct2, THEN conjunct1] by blast
    have "\<not> k < 2"
    proof
      assume "k < 2"
      then have "k = 0 \<or> k = 1" by auto
      then have "tenfactor 34 \<le> 10" using k by auto
      with m show False by simp
    qed
    then have "(10::real) ^ 2 \<le> 10 ^ k" by (intro power_increasing) auto
    then show ?thesis using k by simp
  qed
  have "fn op_cat [12, 34] = Inr (12 * tenfactor 34 + 34)"
    by (rule cat_tenfactor[of 12 34, THEN conjunct1])
  moreover have "tenfactor 34 = 10 ^ 2" using le ge by simp
  ultimately have c: "fn op_cat [12, 34] = Inr 1234" by simp
  have s: "tenfactor (- 3) = 1"
    by (rule mp[OF cat_tenfactor[of 0 "- 3", THEN conjunct2, THEN conjunct2, THEN conjunct1]])
       simp
  have b: "tenfactor (10 ^ 20) = 10 ^ 20"
    by (rule mp[OF cat_tenfactor[of 0 "10 ^ 20", THEN conjunct2, THEN conjunct2, THEN conjunct2,
          THEN conjunct1]]) simp
  show ?thesis using c s b m le by simp
qed

section \<open>The assignment passes\<close>

lemma setvalues_frame:
  "setvalues nxt t g = Inr (t', g') \<Longrightarrow> erase_values t' = erase_values t"
  "setvalues_args nxt ts g = Inr (ts', g') \<Longrightarrow> map erase_values ts' = map erase_values ts"
proof (induction nxt t g and nxt ts g arbitrary: t' g' and ts' g'
    rule: setvalues_setvalues_args.induct)
  case (1 nxt v g)
  then show ?case by (auto split: sum.splits prod.splits)
next
  case (2 nxt opt args g)
  then show ?case by (auto split: sum.splits prod.splits)
next
  case (3 nxt g)
  then show ?case by simp
next
  case (4 nxt a as g)
  then show ?case by (auto split: sum.splits prod.splits)
qed

lemma setops_frame:
  "setops nxt t g = Inr (t', g') \<Longrightarrow> erase_binops t' = erase_binops t"
  "setops_args nxt ts g = Inr (ts', g') \<Longrightarrow> map erase_binops ts' = map erase_binops ts"
proof (induction nxt t g and nxt ts g arbitrary: t' g' and ts' g'
    rule: setops_setops_args.induct)
  case (1 nxt v g)
  then show ?case by simp
next
  case (2 nxt opt args g)
  show ?case
  proof (cases "length args = 2")
    case True
    with 2(3) obtain op g1 args' where
      a: "nxt g = Inr (op, g1)" "setops_args nxt args g1 = Inr (args', g')" "t' = Expr (Some op) args'"
      by (auto split: sum.splits prod.splits)
    from 2(1)[OF True a(1) refl a(2)] have m: "map erase_binops args' = map erase_binops args" .
    then have "length args' = length args" by (rule map_eq_imp_length_eq)
    with m a(3) True show ?thesis by simp
  next
    case False
    with 2(3) obtain args' where
      a: "setops_args nxt args g = Inr (args', g')" "t' = Expr opt args'"
      by (auto split: sum.splits prod.splits)
    from 2(2)[OF False a(1)] have m: "map erase_binops args' = map erase_binops args" .
    then have "length args' = length args" by (rule map_eq_imp_length_eq)
    with m a(2) False show ?thesis by simp
  qed
next
  case (3 nxt g)
  then show ?case by simp
next
  case (4 nxt a as g)
  then show ?case by (auto split: sum.splits prod.splits)
qed

lemma setvalues_generator:
  "(length xs < nleaves t \<longrightarrow> setvalues generator_next t xs = Inl (Thrown ''end of iteration''))
   \<and> (nleaves t \<le> length xs \<longrightarrow>
        (\<exists>t'. setvalues generator_next t xs = Inr (t', drop (nleaves t) xs)
           \<and> values_of t' = take (nleaves t) xs))"
  "(length xs < sum_list (map nleaves ts) \<longrightarrow>
        setvalues_args generator_next ts xs = Inl (Thrown ''end of iteration''))
   \<and> (sum_list (map nleaves ts) \<le> length xs \<longrightarrow>
        (\<exists>ts'. setvalues_args generator_next ts xs = Inr (ts', drop (sum_list (map nleaves ts)) xs)
           \<and> concat (map values_of ts') = take (sum_list (map nleaves ts)) xs))"
proof (induction "generator_next :: T list \<Rightarrow> _" t xs and "generator_next :: T list \<Rightarrow> _" ts xs
    rule: setvalues_setvalues_args.induct)
  case (1 v g)
  then show ?case by (cases g) (auto simp: take_Suc_conv_app_nth)
next
  case (2 opt args g)
  show ?case
  proof (cases "length g < sum_list (map nleaves args)")
    case True
    with 2 show ?thesis by simp
  next
    case False
    with 2 obtain ts' where
      "setvalues_args generator_next args g = Inr (ts', drop (sum_list (map nleaves args)) g)"
      "concat (map values_of ts') = take (sum_list (map nleaves args)) g"
      by auto
    with False show ?thesis by simp
  qed
next
  case (3 g)
  then show ?case by simp
next
  case (4 a as g)
  show ?case
  proof (cases "length g < nleaves a")
    case True
    with 4(1) show ?thesis by simp
  next
    case False
    with 4(1) obtain a' where a: "setvalues generator_next a g = Inr (a', drop (nleaves a) g)"
      and va: "values_of a' = take (nleaves a) g"
      by auto
    note IH = 4(2)[OF a refl]
    show ?thesis
    proof (cases "length g < nleaves a + sum_list (map nleaves as)")
      case True
      then have "length (drop (nleaves a) g) < sum_list (map nleaves as)"
        using False by simp
      with IH have "setvalues_args generator_next as (drop (nleaves a) g)
          = Inl (Thrown ''end of iteration'')" by blast
      with True a show ?thesis by simp
    next
      case F2: False
      then have "sum_list (map nleaves as) \<le> length (drop (nleaves a) g)"
        by simp
      with IH obtain as' where
        as: "setvalues_args generator_next as (drop (nleaves a) g)
               = Inr (as', drop (sum_list (map nleaves as)) (drop (nleaves a) g))"
        and vas: "concat (map values_of as') = take (sum_list (map nleaves as)) (drop (nleaves a) g)"
        by blast
      from F2 a as va vas show ?thesis
        by (simp add: take_add add.commute)
    qed
  qed
qed

text \<open>Induction over a tree and over a list of trees at once.\<close>

lemma Node_Nodes_induct:
  assumes "\<And>v. P (Value v)"
    and "\<And>opt args. Q args \<Longrightarrow> P (Expr opt args)"
    and "Q []"
    and "\<And>a as. P a \<Longrightarrow> Q as \<Longrightarrow> Q (a # as)"
  shows "P t" and "Q ts"
proof -
  have list: "Q xs" if "\<And>x. x \<in> set xs \<Longrightarrow> P x" for xs
    using that by (induction xs) (auto intro: assms(3,4))
  have node: "P x" for x
    by (induction x) (auto intro: assms(1,2) list)
  show "P t" by (rule node)
  show "Q ts" by (rule list) (rule node)
qed

lemma div_lt_31: "(c::nat) < 2 ^ 31 \<Longrightarrow> c div d < 2 ^ 31"
  by (rule le_less_trans[OF div_le_dividend])

lemma OpsGenerator_next_nonneg:
  assumes "bops \<noteq> []" "c < 2 ^ 31"
  shows "OpsGenerator_next \<lparr>ops = bops, cur = int c\<rparr>
       = Inr (bops ! (c mod length bops), \<lparr>ops = bops, cur = int (c div length bops)\<rparr>)"
proof -
  have c64: "int c mod 2 ^ 64 = int c"
    using assms(2) by (intro mod_pos_pos_trivial) auto
  have "c div length bops < 2 ^ 31"
    using assms(2) by (rule div_lt_31)
  then have "int (c div length bops) < 2 ^ 31"
    by simp
  moreover have "- (2 ^ 31) \<le> int (c div length bops)"
    by (rule order_trans[of _ 0]) simp_all
  ultimately have "signed_take_bit 31 (int (c div length bops)) = int (c div length bops)"
    by (simp only: signed_take_bit_int_eq_self_iff)
  then have stb: "signed_take_bit 31 (int c div int (length bops)) = int (c div length bops)"
    by (simp only: zdiv_int)
  have idx: "nat (int c mod int (length bops)) = c mod length bops"
    by (simp add: zmod_int[symmetric])
  have c64': "int c mod 18446744073709551616 = int c"
    using c64 by simp
  show ?thesis
    using assms(1) by (simp add: OpsGenerator_next_def Let_def c64' stb idx)
qed

lemma digit_0: "digit r c 0 = c mod r"
  by (simp add: digit_def)

lemma digit_div: "digit r (c div r ^ a) k = digit r c (a + k)"
  by (simp add: digit_def div_mult2_eq[symmetric] power_add)

lemma digit_div1: "digit r (c div r) k = digit r c (Suc k)"
  using digit_div[of r c 1 k] by simp

lemma map_upt_split: "map f [0..<a + b] = map f [0..<a] @ map (\<lambda>k. f (a + k)) [0..<b]"
  by (induction b) simp_all

lemma map_upt_Suc0: "map f [0..<Suc m] = f 0 # map (\<lambda>k. f (Suc k)) [0..<m]"
  using map_upt_split[of f 1 m] by simp

lemma setops_digits:
  "bops \<noteq> [] \<Longrightarrow> c < 2 ^ 31 \<Longrightarrow>
     \<exists>t'. setops OpsGenerator_next t \<lparr>ops = bops, cur = int c\<rparr>
            = Inr (t', \<lparr>ops = bops, cur = int (c div length bops ^ nbin t)\<rparr>)
        \<and> binops_of t' = map (\<lambda>k. Some (bops ! digit (length bops) c k)) [0..<nbin t]"
  "bops \<noteq> [] \<Longrightarrow> c < 2 ^ 31 \<Longrightarrow>
     \<exists>ts'. setops_args OpsGenerator_next ts \<lparr>ops = bops, cur = int c\<rparr>
            = Inr (ts', \<lparr>ops = bops, cur = int (c div length bops ^ sum_list (map nbin ts))\<rparr>)
        \<and> concat (map binops_of ts')
            = map (\<lambda>k. Some (bops ! digit (length bops) c k)) [0..<sum_list (map nbin ts)]"
proof (induction t and ts arbitrary: c and c rule: Node_Nodes_induct)
  case (1 v)
  then show ?case by simp
next
  case (2 opt args)
  let ?r = "length bops"
  let ?M = "sum_list (map nbin args)"
  show ?case
  proof (cases "length args = 2")
    case True
    have c1: "c div ?r < 2 ^ 31"
      using 2(3) by (rule div_lt_31)
    from 2(1)[OF 2(2) c1] obtain ts' where
      ts: "setops_args OpsGenerator_next args \<lparr>ops = bops, cur = int (c div ?r)\<rparr>
             = Inr (ts', \<lparr>ops = bops, cur = int (c div ?r div ?r ^ ?M)\<rparr>)"
      and bs: "concat (map binops_of ts') = map (\<lambda>k. Some (bops ! digit ?r (c div ?r) k)) [0..<?M]"
      by blast
    have len: "length ts' = length args"
      using setops_frame(2)[OF ts] by (rule map_eq_imp_length_eq)
    have "setops OpsGenerator_next (Expr opt args) \<lparr>ops = bops, cur = int c\<rparr>
        = Inr (Expr (Some (bops ! (c mod ?r))) ts', \<lparr>ops = bops, cur = int (c div ?r div ?r ^ ?M)\<rparr>)"
      using True ts by (simp add: OpsGenerator_next_nonneg[OF 2(2,3)])
    moreover have "c div ?r div ?r ^ ?M = c div ?r ^ nbin (Expr opt args)"
      using True by (simp add: div_mult2_eq)
    moreover have "binops_of (Expr (Some (bops ! (c mod ?r))) ts')
        = map (\<lambda>k. Some (bops ! digit ?r c k)) [0..<nbin (Expr opt args)]"
      using True len bs by (simp add: map_upt_Suc0 digit_0 digit_div1 del: upt_Suc)
    ultimately show ?thesis by simp
  next
    case False
    from 2(1)[OF 2(2,3)] obtain ts' where
      ts: "setops_args OpsGenerator_next args \<lparr>ops = bops, cur = int c\<rparr>
             = Inr (ts', \<lparr>ops = bops, cur = int (c div ?r ^ ?M)\<rparr>)"
      and bs: "concat (map binops_of ts') = map (\<lambda>k. Some (bops ! digit ?r c k)) [0..<?M]"
      by blast
    have len: "length ts' = length args"
      using setops_frame(2)[OF ts] by (rule map_eq_imp_length_eq)
    show ?thesis using False ts bs len by simp
  qed
next
  case 3
  then show ?case by simp
next
  case (4 v vs)
  let ?r = "length bops"
  from 4(1)[OF 4(3,4)] obtain a' where
    a: "setops OpsGenerator_next v \<lparr>ops = bops, cur = int c\<rparr>
          = Inr (a', \<lparr>ops = bops, cur = int (c div ?r ^ nbin v)\<rparr>)"
    and ba: "binops_of a' = map (\<lambda>k. Some (bops ! digit ?r c k)) [0..<nbin v]"
    by blast
  have c1: "c div ?r ^ nbin v < 2 ^ 31"
    using 4(4) by (rule div_lt_31)
  from 4(2)[OF 4(3) c1] obtain as' where
    as: "setops_args OpsGenerator_next vs \<lparr>ops = bops, cur = int (c div ?r ^ nbin v)\<rparr>
          = Inr (as', \<lparr>ops = bops, cur = int (c div ?r ^ nbin v div ?r ^ sum_list (map nbin vs))\<rparr>)"
    and bas: "concat (map binops_of as')
          = map (\<lambda>k. Some (bops ! digit ?r (c div ?r ^ nbin v) k)) [0..<sum_list (map nbin vs)]"
    by blast
  have "c div ?r ^ nbin v div ?r ^ sum_list (map nbin vs) = c div ?r ^ sum_list (map nbin (v # vs))"
    by (simp add: div_mult2_eq power_add)
  moreover have "concat (map binops_of (a' # as'))
      = map (\<lambda>k. Some (bops ! digit ?r c k)) [0..<sum_list (map nbin (v # vs))]"
    using ba bas by (simp add: map_upt_split digit_div)
  ultimately show ?case using a as by simp
qed

lemma length_binops_of: "length (binops_of t) = nbin t"
  by (induction t) (auto simp: length_concat comp_def cong: map_cong)

lemma nbin_erase_binops: "nbin (erase_binops t) = nbin t"
  by (induction t) (auto simp: comp_def cong: map_cong)

lemma binops_unique:
  "erase_binops a = erase_binops b \<Longrightarrow> binops_of a = binops_of b \<Longrightarrow> a = b"
  "map erase_binops as = map erase_binops bs \<Longrightarrow>
     concat (map binops_of as) = concat (map binops_of bs) \<Longrightarrow> as = bs"
proof (induction a and as arbitrary: b and bs rule: Node_Nodes_induct)
  case (1 v)
  then show ?case by (cases b) auto
next
  case (2 opt args)
  from 2(2) obtain opt' args' where b: "b = Expr opt' args'"
    by (cases b) auto
  from 2(2) b have m: "map erase_binops args = map erase_binops args'" by simp
  then have len: "length args = length args'" by (rule map_eq_imp_length_eq)
  from 2(2,3) b len have o: "opt = opt'" by (auto split: if_splits)
  from 2(3) b len o have "concat (map binops_of args) = concat (map binops_of args')"
    by (auto split: if_splits)
  with 2(1)[OF m] have "args = args'" by simp
  with b o show ?case by simp
next
  case 3
  then show ?case by simp
next
  case (4 v vs)
  from 4(3) obtain b bs' where bs: "bs = b # bs'" by (cases bs) auto
  from 4(3) bs have e: "erase_binops v = erase_binops b" "map erase_binops vs = map erase_binops bs'"
    by auto
  have "nbin v = nbin b"
    using e(1) nbin_erase_binops[of v] nbin_erase_binops[of b] by simp
  then have "length (binops_of v) = length (binops_of b)"
    by (simp add: length_binops_of)
  with 4(4) bs have "binops_of v = binops_of b"
    "concat (map binops_of vs) = concat (map binops_of bs')" by auto
  with 4(1)[OF e(1)] 4(2)[OF e(2)] bs show ?case by simp
qed

lemma digits_inj:
  "0 < r \<Longrightarrow> i < r ^ m \<Longrightarrow> j < r ^ m \<Longrightarrow> (\<forall>k<m. digit r i k = digit r j k) \<Longrightarrow> i = j"
proof (induction m arbitrary: i j)
  case 0
  then show ?case by simp
next
  case (Suc m)
  have "i div r < r ^ m" "j div r < r ^ m"
    using Suc.prems(2,3) by (simp_all add: less_mult_imp_div_less mult.commute)
  moreover have "\<forall>k<m. digit r (i div r) k = digit r (j div r) k"
    using Suc.prems(4) by (simp add: digit_div1)
  ultimately have d: "i div r = j div r"
    using Suc.IH[OF Suc.prems(1)] by blast
  have "i mod r = j mod r"
    using Suc.prems(4) digit_0[of r i] digit_0[of r j] by simp
  with d show ?case by (metis mult_div_mod_eq)
qed

lemma digits_surj:
  "0 < r \<Longrightarrow> \<forall>d \<in> set ds. d < r \<Longrightarrow> \<exists>i < r ^ length ds. \<forall>k < length ds. digit r i k = ds ! k"
proof (induction ds)
  case Nil
  then show ?case by simp
next
  case (Cons d ds)
  then obtain i where i: "i < r ^ length ds" "\<forall>k < length ds. digit r i k = ds ! k"
    by auto
  have d: "d < r" using Cons.prems(2) by simp
  let ?j = "d + r * i"
  have "?j < r + r * i" using d by simp
  also have "\<dots> = r * Suc i" by simp
  also have "\<dots> \<le> r * r ^ length ds" using i(1) by (intro mult_le_mono2) simp
  finally have lt: "?j < r ^ length (d # ds)" by simp
  have j0: "?j mod r = d" using d by simp
  have jd: "?j div r = i" using d Cons.prems(1) by simp
  have "\<forall>k < length (d # ds). digit r ?j k = (d # ds) ! k"
  proof (intro allI impI)
    fix k assume k: "k < length (d # ds)"
    show "digit r ?j k = (d # ds) ! k"
    proof (cases k)
      case 0
      then show ?thesis using j0 by (simp add: digit_0)
    next
      case (Suc k')
      then have "digit r ?j k = digit r (?j div r) k'" by (simp add: digit_div1)
      with Suc k i(2) jd show ?thesis by simp
    qed
  qed
  with lt show ?case by blast
qed

lemma setops_generator:
  "(length os < nbin t \<longrightarrow> setops generator_next t os = Inl (Thrown ''end of iteration''))
   \<and> (nbin t \<le> length os \<longrightarrow>
        (\<exists>t'. setops generator_next t os = Inr (t', drop (nbin t) os)
           \<and> binops_of t' = map Some (take (nbin t) os)))"
  "(length os < sum_list (map nbin ts) \<longrightarrow>
        setops_args generator_next ts os = Inl (Thrown ''end of iteration''))
   \<and> (sum_list (map nbin ts) \<le> length os \<longrightarrow>
        (\<exists>ts'. setops_args generator_next ts os = Inr (ts', drop (sum_list (map nbin ts)) os)
           \<and> concat (map binops_of ts') = map Some (take (sum_list (map nbin ts)) os)))"
proof (induction t and ts arbitrary: os and os rule: Node_Nodes_induct)
  case (1 v)
  then show ?case by simp
next
  case (2 opt args)
  let ?M = "sum_list (map nbin args)"
  show ?case
  proof (cases "length args = 2")
    case True
    show ?thesis
    proof (cases os)
      case Nil
      with True show ?thesis by simp
    next
      case (Cons p ps)
      show ?thesis
      proof (cases "length ps < ?M")
        case lt: True
        with 2[of ps] have "setops_args generator_next args ps = Inl (Thrown ''end of iteration'')"
          by blast
        with True Cons lt show ?thesis by simp
      next
        case False
        with 2[of ps] obtain ts' where
          ts: "setops_args generator_next args ps = Inr (ts', drop ?M ps)"
          and bs: "concat (map binops_of ts') = map Some (take ?M ps)"
          by auto
        have len: "length ts' = length args"
          using setops_frame(2)[OF ts] by (rule map_eq_imp_length_eq)
        from True Cons False ts bs len show ?thesis by simp
      qed
    qed
  next
    case False
    show ?thesis
    proof (cases "length os < ?M")
      case lt: True
      with 2[of os] have "setops_args generator_next args os = Inl (Thrown ''end of iteration'')"
        by blast
      with False lt show ?thesis by simp
    next
      case ge: False
      with 2[of os] obtain ts' where
        ts: "setops_args generator_next args os = Inr (ts', drop ?M os)"
        and bs: "concat (map binops_of ts') = map Some (take ?M os)"
        by auto
      have len: "length ts' = length args"
        using setops_frame(2)[OF ts] by (rule map_eq_imp_length_eq)
      from False ge ts bs len show ?thesis by simp
    qed
  qed
next
  case 3
  then show ?case by simp
next
  case (4 a as)
  show ?case
  proof (cases "length os < nbin a")
    case True
    with 4(1)[of os] show ?thesis by simp
  next
    case False
    with 4(1)[of os] obtain a' where a: "setops generator_next a os = Inr (a', drop (nbin a) os)"
      and ba: "binops_of a' = map Some (take (nbin a) os)"
      by auto
    note IH = 4(2)[of "drop (nbin a) os"]
    show ?thesis
    proof (cases "length os < nbin a + sum_list (map nbin as)")
      case True
      then have "length (drop (nbin a) os) < sum_list (map nbin as)"
        using False by simp
      with IH have "setops_args generator_next as (drop (nbin a) os)
          = Inl (Thrown ''end of iteration'')" by blast
      with True a show ?thesis by simp
    next
      case F2: False
      then have "sum_list (map nbin as) \<le> length (drop (nbin a) os)"
        by simp
      with IH obtain as' where
        as: "setops_args generator_next as (drop (nbin a) os)
               = Inr (as', drop (sum_list (map nbin as)) (drop (nbin a) os))"
        and bas: "concat (map binops_of as') = map Some (take (sum_list (map nbin as)) (drop (nbin a) os))"
        by blast
      from F2 a as ba bas show ?thesis
        by (simp add: take_add add.commute)
    qed
  qed
qed

lemma OpsGenerator_next_total:
  "ops g \<noteq> [] \<Longrightarrow> \<exists>p g'. OpsGenerator_next g = Inr (p, g') \<and> ops g' = ops g"
  by (simp add: OpsGenerator_next_def Let_def)

lemma setops_OpsGenerator_total:
  "ops g \<noteq> [] \<Longrightarrow> \<exists>t' g'. setops OpsGenerator_next t g = Inr (t', g') \<and> ops g' = ops g"
  "ops g \<noteq> [] \<Longrightarrow> \<exists>ts' g'. setops_args OpsGenerator_next ts g = Inr (ts', g') \<and> ops g' = ops g"
proof (induction t and ts arbitrary: g and g rule: Node_Nodes_induct)
  case (1 v)
  then show ?case by simp
next
  case (2 opt args)
  show ?case
  proof (cases "length args = 2")
    case True
    from OpsGenerator_next_total[OF 2(2)] obtain p g1 where
      p: "OpsGenerator_next g = Inr (p, g1)" "ops g1 = ops g" by blast
    with 2(1)[of g1] 2(2) obtain ts' g' where
      "setops_args OpsGenerator_next args g1 = Inr (ts', g')" "ops g' = ops g" by auto
    with True p show ?thesis by simp
  next
    case False
    from 2(1)[OF 2(2)] obtain ts' g' where
      "setops_args OpsGenerator_next args g = Inr (ts', g')" "ops g' = ops g" by auto
    with False show ?thesis by simp
  qed
next
  case 3
  then show ?case by simp
next
  case (4 a as)
  from 4(1)[OF 4(3)] obtain a' g1 where
    a: "setops OpsGenerator_next a g = Inr (a', g1)" "ops g1 = ops g" by blast
  with 4(2)[of g1] 4(3) obtain as' g' where
    "setops_args OpsGenerator_next as g1 = Inr (as', g')" "ops g' = ops g" by auto
  with a show ?case by simp
qed

lemma assign_ops_digits:
  assumes "bops \<noteq> []" "i < 2 ^ 31"
  shows "\<exists>t'. assign_ops bops t (int i) = Inr t'
           \<and> binops_of t' = map (\<lambda>k. Some (bops ! digit (length bops) i k)) [0..<nbin t]
           \<and> erase_binops t' = erase_binops t"
proof -
  from setops_digits(1)[OF assms, of t] obtain t' where
    s: "setops OpsGenerator_next t \<lparr>ops = bops, cur = int i\<rparr>
          = Inr (t', \<lparr>ops = bops, cur = int (i div length bops ^ nbin t)\<rparr>)"
    and b: "binops_of t' = map (\<lambda>k. Some (bops ! digit (length bops) i k)) [0..<nbin t]"
    by blast
  from s have "assign_ops bops t (int i) = Inr t'" by (simp add: assign_ops_def)
  moreover from s have "erase_binops t' = erase_binops t" by (rule setops_frame(1))
  ultimately show ?thesis using b by blast
qed

lemma digit_less: "0 < r \<Longrightarrow> digit r i k < r"
  by (simp add: digit_def)

text \<open>
  C6 (amended). Assigning operands from a generator over the operand sequence raises an
  error, the generator's ``end of iteration'', exactly when there are fewer operands
  than leaves. With as many operands as leaves, and also with more, no error is raised:
  the leaves, read in pre-order, take the first operands in their order, nothing else
  of the tree changes, and the surplus stays in the generator.
\<close>

theorem setvalues_operand_count:
  "(length xs < nleaves t \<longrightarrow>
      setvalues generator_next t xs = Inl (Thrown ''end of iteration'')) \<and>
   (nleaves t \<le> length xs \<longrightarrow>
      (\<exists>t'. setvalues generator_next t xs = Inr (t', drop (nleaves t) xs)
         \<and> values_of t' = take (nleaves t) xs
         \<and> erase_values t' = erase_values t))"
proof (intro conjI impI)
  assume "length xs < nleaves t"
  then show "setvalues generator_next t xs = Inl (Thrown ''end of iteration'')"
    using setvalues_generator(1)[of xs t] by blast
next
  assume "nleaves t \<le> length xs"
  with setvalues_generator(1)[of xs t] obtain t' where
    t': "setvalues generator_next t xs = Inr (t', drop (nleaves t) xs)"
      "values_of t' = take (nleaves t) xs" by blast
  from t'(1) have "erase_values t' = erase_values t" by (rule setvalues_frame(1))
  with t' show "\<exists>t'. setvalues generator_next t xs = Inr (t', drop (nleaves t) xs)
      \<and> values_of t' = take (nleaves t) xs \<and> erase_values t' = erase_values t"
    by blast
qed

theorem setvalues_operand_count_witness:
  "setvalues generator_next (Expr None [Value 0, Value 0]) [1] = Inl (Thrown ''end of iteration'')
   \<and> (\<exists>t'. setvalues generator_next (Expr None [Value 0, Value 0]) [1, 2] = Inr (t', [])
          \<and> values_of t' = [1, 2]
          \<and> erase_values t' = erase_values (Expr None [Value 0, Value 0]))
   \<and> (\<exists>t'. setvalues generator_next (Expr None [Value 7, Value 8]) [1, 2, 3] = Inr (t', [3])
          \<and> values_of t' = [1, 2]
          \<and> erase_values t' = erase_values (Expr None [Value 7, Value 8]))"
proof -
  have 1: "setvalues generator_next (Expr None [Value 0, Value 0]) [1]
      = Inl (Thrown ''end of iteration'')"
    by (rule mp[OF setvalues_operand_count[where t = "Expr None [Value 0, Value 0]" and xs = "[1]",
          THEN conjunct1]]) simp
  have 2: "\<exists>t'. setvalues generator_next (Expr None [Value 0, Value 0]) [1, 2] = Inr (t', [])
          \<and> values_of t' = [1, 2]
          \<and> erase_values t' = erase_values (Expr None [Value 0, Value 0])"
    using mp[OF setvalues_operand_count[where t = "Expr None [Value 0, Value 0]" and xs = "[1, 2]",
          THEN conjunct2]] by simp
  have 3: "\<exists>t'. setvalues generator_next (Expr None [Value 7, Value 8]) [1, 2, 3] = Inr (t', [3])
          \<and> values_of t' = [1, 2]
          \<and> erase_values t' = erase_values (Expr None [Value 7, Value 8])"
    using mp[OF setvalues_operand_count[where t = "Expr None [Value 7, Value 8]" and xs = "[1, 2, 3]",
          THEN conjunct2]] by simp
  show ?thesis using 1 2 3 by blast
qed

text \<open>
  Three operands for a tree with two leaves: the counts differ, no error is raised, the
  first two operands are assigned and the third is left in the generator.
\<close>

theorem setvalues_surplus_counterexample:
  "length [1, 2, 3 :: T] \<noteq> nleaves (Expr None [Value 0, Value 0]) \<and>
   setvalues generator_next (Expr None [Value 0, Value 0]) [1, 2, 3]
     = Inr (Expr None [Value 1, Value 2], [3])"
  by simp

text \<open>
  C10. Neither pass changes the structure of the tree. \<open>setvalues\<close>, with any generator,
  leaves a tree that agrees with the old one on everything but the leaf values;
  \<open>setops\<close>, with any generator, leaves a tree that agrees with the old one on
  everything but the operations of the nodes with exactly two children, so the
  operation of a node of any other arity is unchanged. With a generator that is long
  enough (a sequence of at least as many elements as there are leaves, or two-child
  nodes; an \<open>OpsGenerator\<close> over a non-empty list) each pass does return.
\<close>

theorem assignment_frame:
  "(setvalues nxt t g = Inr (t', g') \<longrightarrow> erase_values t' = erase_values t) \<and>
   (setops nxto t h = Inr (t'', h') \<longrightarrow> erase_binops t'' = erase_binops t) \<and>
   (nleaves t \<le> length xs \<longrightarrow>
      (\<exists>u. setvalues generator_next t xs = Inr (u, drop (nleaves t) xs))) \<and>
   (nbin t \<le> length os \<longrightarrow>
      (\<exists>u. setops generator_next t os = Inr (u, drop (nbin t) os))) \<and>
   (bops \<noteq> [] \<longrightarrow>
      (\<exists>u g2. setops OpsGenerator_next t \<lparr>ops = bops, cur = c\<rparr> = Inr (u, g2)))"
proof (intro conjI impI)
  assume "setvalues nxt t g = Inr (t', g')"
  then show "erase_values t' = erase_values t" by (rule setvalues_frame(1))
next
  assume "setops nxto t h = Inr (t'', h')"
  then show "erase_binops t'' = erase_binops t" by (rule setops_frame(1))
next
  assume "nleaves t \<le> length xs"
  then show "\<exists>u. setvalues generator_next t xs = Inr (u, drop (nleaves t) xs)"
    using setvalues_generator(1)[of xs t] by blast
next
  assume "nbin t \<le> length os"
  then show "\<exists>u. setops generator_next t os = Inr (u, drop (nbin t) os)"
    using setops_generator(1)[of os t] by blast
next
  assume "bops \<noteq> []"
  then show "\<exists>u g2. setops OpsGenerator_next t \<lparr>ops = bops, cur = c\<rparr> = Inr (u, g2)"
    using setops_OpsGenerator_total(1)[of "\<lparr>ops = bops, cur = c\<rparr>" t] by auto
qed

theorem assignment_frame_witness:
  "erase_values (Expr (Some op_neg) [Value 5]) = erase_values (Expr (Some op_neg) [Value 0]) \<and>
   erase_binops (Expr (Some op_neg) [Expr (Some op_add) [Value 0, Value 0]])
     = erase_binops (Expr (Some op_neg) [Expr None [Value 0, Value 0]]) \<and>
   (\<exists>u. setvalues generator_next (Expr (Some op_neg) [Value 0]) [5, 6] = Inr (u, [6])) \<and>
   (\<exists>u. setops generator_next (Expr (Some op_neg) [Value 0]) [op_add] = Inr (u, [op_add])) \<and>
   (\<exists>u g2. setops OpsGenerator_next (Expr (Some op_neg) [Value 0]) \<lparr>ops = [op_add], cur = - 1\<rparr>
      = Inr (u, g2))"
proof -
  note a = assignment_frame[where nxt = "generator_next :: T list \<Rightarrow> _"
      and t = "Expr (Some op_neg) [Value 0]" and g = "[5]"
      and t' = "Expr (Some op_neg) [Value 5]" and g' = "[]"
      and xs = "[5, 6]" and os = "[op_add]" and bops = "[op_add]" and c = "- 1"]
  note b = assignment_frame[where nxto = "generator_next :: Operation list \<Rightarrow> _"
      and t = "Expr (Some op_neg) [Expr None [Value 0, Value 0]]" and h = "[op_add]"
      and t'' = "Expr (Some op_neg) [Expr (Some op_add) [Value 0, Value 0]]" and h' = "[]"]
  have 1: "erase_values (Expr (Some op_neg) [Value 5]) = erase_values (Expr (Some op_neg) [Value 0])"
    by (rule mp[OF a[THEN conjunct1]]) simp
  have 2: "erase_binops (Expr (Some op_neg) [Expr (Some op_add) [Value 0, Value 0]])
     = erase_binops (Expr (Some op_neg) [Expr None [Value 0, Value 0]])"
    by (rule mp[OF b[THEN conjunct2, THEN conjunct1]]) simp
  have 3: "\<exists>u. setvalues generator_next (Expr (Some op_neg) [Value 0]) [5, 6] = Inr (u, [6])"
    using a[THEN conjunct2, THEN conjunct2, THEN conjunct1] by simp
  have 4: "\<exists>u. setops generator_next (Expr (Some op_neg) [Value 0]) [op_add] = Inr (u, [op_add])"
    using a[THEN conjunct2, THEN conjunct2, THEN conjunct2, THEN conjunct1] by simp
  have 5: "\<exists>u g2. setops OpsGenerator_next (Expr (Some op_neg) [Value 0]) \<lparr>ops = [op_add], cur = - 1\<rparr>
      = Inr (u, g2)"
    using a[THEN conjunct2, THEN conjunct2, THEN conjunct2, THEN conjunct2] by simp
  show ?thesis using 1 2 3 4 5 by blast
qed

text \<open>
  C8. With as many operands as leaves, \<open>setvalues\<close> consumes the whole sequence and the
  leaves of the result, read in pre-order from left to right, are the operand sequence
  itself: nothing is reordered, dropped or repeated. \<open>setops\<close> walks in the same
  pre-order: the operations it draws from a generator land, in the order drawn, on the
  two-child nodes read in pre-order, and with \<open>OpsGenerator(bops, i)\<close> the \<open>k\<close>-th of
  them is the operation selected by the \<open>k\<close>-th radix-\<open>length bops\<close> digit of \<open>i\<close>. Both
  passes keep the shape, so the positions are the same on every call.
\<close>

theorem assignment_order:
  "(length xs = nleaves t \<longrightarrow>
      (\<exists>t'. setvalues generator_next t xs = Inr (t', []) \<and> values_of t' = xs
         \<and> erase_values t' = erase_values t)) \<and>
   (nbin t \<le> length os \<longrightarrow>
      (\<exists>t'. setops generator_next t os = Inr (t', drop (nbin t) os)
         \<and> binops_of t' = map Some (take (nbin t) os) \<and> erase_binops t' = erase_binops t)) \<and>
   (bops \<noteq> [] \<and> 0 \<le> i \<and> i < 2 ^ 31 \<longrightarrow>
      (\<exists>t' g'. setops OpsGenerator_next t \<lparr>ops = bops, cur = i\<rparr> = Inr (t', g')
         \<and> binops_of t' = map (\<lambda>k. Some (bops ! digit (length bops) (nat i) k)) [0..<nbin t]
         \<and> erase_binops t' = erase_binops t))"
proof (intro conjI impI)
  assume len: "length xs = nleaves t"
  with setvalues_generator(1)[of xs t] obtain t' where
    t': "setvalues generator_next t xs = Inr (t', drop (nleaves t) xs)"
      "values_of t' = take (nleaves t) xs" by auto
  from t'(1) have "erase_values t' = erase_values t" by (rule setvalues_frame(1))
  with t' len show "\<exists>t'. setvalues generator_next t xs = Inr (t', []) \<and> values_of t' = xs
      \<and> erase_values t' = erase_values t" by simp
next
  assume "nbin t \<le> length os"
  with setops_generator(1)[of os t] obtain t' where
    t': "setops generator_next t os = Inr (t', drop (nbin t) os)"
      "binops_of t' = map Some (take (nbin t) os)" by auto
  from t'(1) have "erase_binops t' = erase_binops t" by (rule setops_frame(1))
  with t' show "\<exists>t'. setops generator_next t os = Inr (t', drop (nbin t) os)
      \<and> binops_of t' = map Some (take (nbin t) os) \<and> erase_binops t' = erase_binops t" by blast
next
  assume a: "bops \<noteq> [] \<and> 0 \<le> i \<and> i < 2 ^ 31"
  then have c: "nat i < 2 ^ 31" "int (nat i) = i" by auto
  from setops_digits(1)[OF _ c(1), of bops t] a c(2) obtain t' where
    t': "setops OpsGenerator_next t \<lparr>ops = bops, cur = i\<rparr>
          = Inr (t', \<lparr>ops = bops, cur = int (nat i div length bops ^ nbin t)\<rparr>)"
      "binops_of t' = map (\<lambda>k. Some (bops ! digit (length bops) (nat i) k)) [0..<nbin t]"
    by auto
  from t'(1) have "erase_binops t' = erase_binops t" by (rule setops_frame(1))
  with t' show "\<exists>t' g'. setops OpsGenerator_next t \<lparr>ops = bops, cur = i\<rparr> = Inr (t', g')
      \<and> binops_of t' = map (\<lambda>k. Some (bops ! digit (length bops) (nat i) k)) [0..<nbin t]
      \<and> erase_binops t' = erase_binops t" by blast
qed

theorem assignment_order_witness:
  "(\<exists>t'. setvalues generator_next (Expr None [Value 0, Expr None [Value 0, Value 0]]) [1, 2, 3]
           = Inr (t', []) \<and> values_of t' = [1, 2, 3]
         \<and> erase_values t' = erase_values (Expr None [Value 0, Expr None [Value 0, Value 0]])) \<and>
   (\<exists>t'. setops generator_next (Expr None [Value 0, Expr None [Value 0, Value 0]]) [op_mul, op_add]
           = Inr (t', []) \<and> binops_of t' = [Some op_mul, Some op_add]) \<and>
   (\<exists>t' g'. setops OpsGenerator_next (Expr None [Value 0, Expr None [Value 0, Value 0]])
               \<lparr>ops = [op_add, op_sub, op_mul], cur = 7\<rparr> = Inr (t', g')
         \<and> binops_of t' = [Some op_sub, Some op_mul])"
proof -
  let ?t = "Expr None [Value 0, Expr None [Value 0, Value 0]]"
  note a = assignment_order[where t = ?t and xs = "[1, 2, 3]" and os = "[op_mul, op_add]"
      and bops = "[op_add, op_sub, op_mul]" and i = 7]
  have 1: "\<exists>t'. setvalues generator_next ?t [1, 2, 3] = Inr (t', []) \<and> values_of t' = [1, 2, 3]
         \<and> erase_values t' = erase_values ?t"
    by (rule mp[OF a[THEN conjunct1]]) simp
  have 2: "\<exists>t'. setops generator_next ?t [op_mul, op_add] = Inr (t', [])
          \<and> binops_of t' = [Some op_mul, Some op_add]"
    using a[THEN conjunct2, THEN conjunct1] by simp
  have d: "map (\<lambda>k. Some ([op_add, op_sub, op_mul] ! digit (length [op_add, op_sub, op_mul]) (nat 7) k))
             [0..<nbin ?t] = [Some op_sub, Some op_mul]"
    by (simp add: digit_def upt_rec[of 0] upt_rec[of 1])
  have "\<exists>t' g'. setops OpsGenerator_next ?t \<lparr>ops = [op_add, op_sub, op_mul], cur = 7\<rparr> = Inr (t', g')
         \<and> binops_of t' = map (\<lambda>k. Some ([op_add, op_sub, op_mul]
                ! digit (length [op_add, op_sub, op_mul]) (nat 7) k)) [0..<nbin ?t]
         \<and> erase_binops t' = erase_binops ?t"
    by (rule mp[OF a[THEN conjunct2, THEN conjunct2]]) simp
  then have 3: "\<exists>t' g'. setops OpsGenerator_next ?t \<lparr>ops = [op_add, op_sub, op_mul], cur = 7\<rparr> = Inr (t', g')
         \<and> binops_of t' = [Some op_sub, Some op_mul]"
    unfolding d by blast
  show ?thesis using 1 2 3 by blast
qed

text \<open>
  C2. For a tree with \<open>m\<close> two-child nodes and a list of \<open>r \<ge> 1\<close> different operations, with
  \<open>r^m\<close> within the range of the \<open>int\<close> index, the assignments made from the indices
  below \<open>r^m\<close> are pairwise distinct, there are \<open>r^m\<close> of them, and decoding the index is
  a bijection from the indices below \<open>r^m\<close> onto all the ways of giving every two-child
  node of the tree an operation of the list.
\<close>

theorem setops_bijection:
  assumes "bops \<noteq> []" and "distinct bops" and "length bops ^ nbin t \<le> 2 ^ 31"
  shows "(\<forall>i < length bops ^ nbin t. \<forall>j < length bops ^ nbin t.
            i \<noteq> j \<longrightarrow> assign_ops bops t (int i) \<noteq> assign_ops bops t (int j))
       \<and> card ((\<lambda>i. assign_ops bops t (int i)) ` {..<length bops ^ nbin t}) = length bops ^ nbin t
       \<and> bij_betw (\<lambda>i. assign_ops bops t (int i)) {..<length bops ^ nbin t}
            {u. \<exists>t'. u = Inr t' \<and> erase_binops t' = erase_binops t
                      \<and> set (binops_of t') \<subseteq> Some ` set bops}"
proof -
  let ?r = "length bops"
  let ?m = "nbin t"
  let ?f = "\<lambda>i. assign_ops bops t (int i)"
  let ?T = "{u :: failure + Node. \<exists>t'. u = Inr t' \<and> erase_binops t' = erase_binops t
                      \<and> set (binops_of t') \<subseteq> Some ` set bops}"
  have r0: "0 < ?r" using assms(1) by simp
  have small: "i < 2 ^ 31" if "i < ?r ^ ?m" for i
    using that assms(3) by linarith
  have inj: "i = j" if "i < ?r ^ ?m" "j < ?r ^ ?m" "?f i = ?f j" for i j
  proof -
    from assign_ops_digits[OF assms(1) small[OF that(1)], of t] obtain ti where
      ti: "?f i = Inr ti" "binops_of ti = map (\<lambda>k. Some (bops ! digit ?r i k)) [0..<?m]" by blast
    from assign_ops_digits[OF assms(1) small[OF that(2)], of t] obtain tj where
      tj: "?f j = Inr tj" "binops_of tj = map (\<lambda>k. Some (bops ! digit ?r j k)) [0..<?m]" by blast
    from ti tj that(3) have
      "map (\<lambda>k. Some (bops ! digit ?r i k)) [0..<?m] = map (\<lambda>k. Some (bops ! digit ?r j k)) [0..<?m]"
      by simp
    then have "\<forall>k<?m. bops ! digit ?r i k = bops ! digit ?r j k"
      by (simp add: map_eq_conv)
    then have "\<forall>k<?m. digit ?r i k = digit ?r j k"
      using assms(2) digit_less[OF r0] by (simp add: nth_eq_iff_index_eq)
    then show ?thesis using digits_inj[OF r0 that(1,2)] by blast
  qed
  then have inj_on: "inj_on ?f {..<?r ^ ?m}"
    by (auto simp: inj_on_def)
  have sub: "?f ` {..<?r ^ ?m} \<subseteq> ?T"
  proof
    fix u assume "u \<in> ?f ` {..<?r ^ ?m}"
    then obtain i where i: "i < ?r ^ ?m" "u = ?f i" by auto
    from assign_ops_digits[OF assms(1) small[OF i(1)], of t] obtain ti where
      ti: "?f i = Inr ti" "binops_of ti = map (\<lambda>k. Some (bops ! digit ?r i k)) [0..<?m]"
        "erase_binops ti = erase_binops t" by blast
    have "set (binops_of ti) \<subseteq> Some ` set bops"
      using digit_less[OF r0] by (auto simp: ti(2))
    with ti i(2) show "u \<in> ?T" by simp
  qed
  have sup: "?T \<subseteq> ?f ` {..<?r ^ ?m}"
  proof
    fix u assume "u \<in> ?T"
    then obtain t' where t': "u = Inr t'" "erase_binops t' = erase_binops t"
      "set (binops_of t') \<subseteq> Some ` set bops" by blast
    have len: "length (binops_of t') = ?m"
      using t'(2) nbin_erase_binops[of t'] nbin_erase_binops[of t] by (simp add: length_binops_of)
    have "\<forall>k. \<exists>d. k < ?m \<longrightarrow> d < ?r \<and> binops_of t' ! k = Some (bops ! d)"
    proof
      fix k
      show "\<exists>d. k < ?m \<longrightarrow> d < ?r \<and> binops_of t' ! k = Some (bops ! d)"
      proof (cases "k < ?m")
        case True
        then have "binops_of t' ! k \<in> set (binops_of t')" using len by simp
        then have "binops_of t' ! k \<in> Some ` set bops" using t'(3) by blast
        then show ?thesis by (auto simp: in_set_conv_nth)
      next
        case False
        then show ?thesis by simp
      qed
    qed
    from choice[OF this] obtain g where
      g: "\<forall>k. k < ?m \<longrightarrow> g k < ?r \<and> binops_of t' ! k = Some (bops ! g k)"
      by blast
    have "\<forall>d \<in> set (map g [0..<?m]). d < ?r" using g by auto
    from digits_surj[OF r0 this] obtain i where
      i: "i < ?r ^ ?m" "\<forall>k<?m. digit ?r i k = g k" by auto
    from assign_ops_digits[OF assms(1) small[OF i(1)], of t] obtain ti where
      ti: "?f i = Inr ti" "binops_of ti = map (\<lambda>k. Some (bops ! digit ?r i k)) [0..<?m]"
        "erase_binops ti = erase_binops t" by blast
    have "binops_of ti = binops_of t'"
      using len g i(2) by (intro nth_equalityI) (simp_all add: ti(2))
    moreover have "erase_binops ti = erase_binops t'" using ti(3) t'(2) by simp
    ultimately have "ti = t'" by (rule binops_unique(1)[rotated])
    with ti(1) t'(1) have "u = ?f i" by simp
    moreover have "i \<in> {..<?r ^ ?m}" using i(1) by simp
    ultimately show "u \<in> ?f ` {..<?r ^ ?m}" by (rule image_eqI)
  qed
  have bij: "bij_betw ?f {..<?r ^ ?m} ?T"
    using inj_on sub sup by (auto simp: bij_betw_def)
  have card: "card (?f ` {..<?r ^ ?m}) = ?r ^ ?m"
    using inj_on by (simp add: card_image)
  have distinct: "\<forall>i < ?r ^ ?m. \<forall>j < ?r ^ ?m. i \<noteq> j \<longrightarrow> ?f i \<noteq> ?f j"
    using inj by blast
  show ?thesis using distinct card bij by blast
qed

theorem setops_bijection_witness:
  "distinct [op_add, op_sub] \<and>
   assign_ops [op_add, op_sub] (Expr None [Value 0, Expr None [Value 0, Value 0]]) 1
     \<noteq> assign_ops [op_add, op_sub] (Expr None [Value 0, Expr None [Value 0, Value 0]]) 2 \<and>
   card ((\<lambda>i. assign_ops [op_add, op_sub] (Expr None [Value 0, Expr None [Value 0, Value 0]]) (int i))
           ` {..<4}) = 4"
proof -
  let ?t = "Expr None [Value 0, Expr None [Value 0, Value 0]]"
  have h: "[op_add, op_sub] \<noteq> []" "distinct [op_add, op_sub]"
    "length [op_add, op_sub] ^ nbin ?t \<le> 2 ^ 31"
    by (simp_all add: op_add_def op_sub_def)
  have p: "length [op_add, op_sub] ^ nbin ?t = 4" by simp
  note a = setops_bijection[OF h, unfolded p]
  have "assign_ops [op_add, op_sub] ?t (int 1) \<noteq> assign_ops [op_add, op_sub] ?t (int 2)"
    by (rule a[THEN conjunct1, rule_format]) simp_all
  then have "assign_ops [op_add, op_sub] ?t 1 \<noteq> assign_ops [op_add, op_sub] ?t 2"
    by simp
  moreover from a have "card ((\<lambda>i. assign_ops [op_add, op_sub] ?t (int i)) ` {..<4}) = 4"
    by blast
  ultimately show ?thesis using h(2) by simp
qed

section \<open>Evaluation\<close>

lemma eval_args_length: "eval_args ts = Inr vs \<Longrightarrow> length vs = length ts"
  by (induction ts arbitrary: vs) (auto split: sum.splits)

lemma eval_unassigned_fails:
  "\<not> assigned t \<Longrightarrow> \<exists>e. eval t = Inl e"
  "\<not> list_all assigned ts \<Longrightarrow> \<exists>e. eval_args ts = Inl e"
proof (induction t and ts rule: Node_Nodes_induct)
  case (1 v)
  then show ?case by simp
next
  case (2 opt args)
  then show ?case by (cases "list_all assigned args") (auto split: sum.splits)
next
  case 3
  then show ?case by simp
next
  case (4 a as)
  then show ?case by (cases "assigned a") (auto split: sum.splits)
qed

lemma those_length: "those rs = Some xs \<Longrightarrow> length xs = length rs"
  by (induction rs arbitrary: xs) (auto split: option.splits)

lemma apply_fn_accepts:
  assumes "accepts op (length results)"
  shows "\<exists>r. apply_fn op results = Inr r"
proof (cases "those results")
  case None
  with assms show ?thesis by (simp add: apply_fn_def accepts_def)
next
  case (Some xs)
  then have "length xs = length results" by (rule those_length)
  with assms have "(\<exists>x. fn op xs = Inr x) \<or> fn op xs = Inl NonFinite"
    by (simp add: accepts_def)
  with Some show ?thesis by (auto simp: apply_fn_def)
qed

lemma eval_arity_kept:
  "arity_kept t \<Longrightarrow>
     (assigned t \<and> (\<exists>r. eval t = Inr r)) \<or> (\<not> assigned t \<and> eval t = Inl NullDeref)"
  "list_all arity_kept ts \<Longrightarrow>
     (list_all assigned ts \<and> (\<exists>rs. eval_args ts = Inr rs))
     \<or> (\<not> list_all assigned ts \<and> eval_args ts = Inl NullDeref)"
proof (induction t and ts rule: Node_Nodes_induct)
  case (1 v)
  then show ?case by simp
next
  case (2 opt args)
  from 2(2) have ak: "list_all arity_kept args" by simp
  from 2(1)[OF ak] show ?case
  proof
    assume a: "list_all assigned args \<and> (\<exists>rs. eval_args args = Inr rs)"
    then obtain rs where rs: "eval_args args = Inr rs" by blast
    then have len: "length rs = length args" by (rule eval_args_length)
    show ?thesis
    proof (cases opt)
      case None
      with rs show ?thesis by simp
    next
      case (Some op)
      with 2(2) len have "accepts op (length rs)" by simp
      then obtain r where "apply_fn op rs = Inr r" using apply_fn_accepts by blast
      with Some rs a show ?thesis by simp
    qed
  next
    assume "\<not> list_all assigned args \<and> eval_args args = Inl NullDeref"
    then show ?thesis by simp
  qed
next
  case 3
  then show ?case by simp
next
  case (4 a as)
  from 4(3) have fa: "arity_kept a" and fas: "list_all arity_kept as" by simp_all
  from 4(1)[OF fa] 4(2)[OF fas] show ?case by auto
qed

lemma binary_enough: "2 \<le> length vs \<Longrightarrow> binary f vs = f (vs ! 0) (vs ! 1)"
  by (cases vs) (auto simp: binary_def arg_def)

lemma unary_enough: "1 \<le> length vs \<Longrightarrow> unary f vs = f (vs ! 0)"
  by (cases vs) (auto simp: unary_def arg_def)

lemma div_T_cases: "(\<exists>v. div_T a b = Inr v) \<or> div_T a b = Inl NonFinite"
  by (simp add: div_T_def)

lemma pow_T_cases: "(\<exists>v. pow_T a b = Inr v) \<or> pow_T a b = Inl NonFinite"
  by (simp add: pow_T_def)

lemma oplist_fn:
  assumes "op \<in> set oplist" and "n op \<le> int (length vs)"
  shows "(\<exists>v. fn op vs = Inr v) \<or> fn op vs = Inl NonFinite"
proof -
  from assms(1) consider "op = op_add" | "op = op_sub" | "op = op_mul" | "op = op_div"
    | "op = op_pow" | "op = op_cat" | "op = op_neg"
    by (auto simp: oplist_def)
  then show ?thesis
  proof cases
    case 1
    with assms(2) show ?thesis by (simp add: op_add_def binary_enough)
  next
    case 2
    with assms(2) show ?thesis by (simp add: op_sub_def binary_enough)
  next
    case 3
    with assms(2) show ?thesis by (simp add: op_mul_def binary_enough)
  next
    case 4
    with assms(2) show ?thesis using div_T_cases by (simp add: op_div_def binary_enough)
  next
    case 5
    with assms(2) show ?thesis using pow_T_cases by (simp add: op_pow_def binary_enough)
  next
    case 6
    with assms(2) show ?thesis by (simp add: op_cat_def binary_enough)
  next
    case 7
    with assms(2) show ?thesis by (simp add: op_neg_def unary_enough)
  qed
qed

lemma to_double_small: "\<bar>x\<bar> \<le> 1000000 \<Longrightarrow> to_double x = Some x"
proof -
  have "(1000000::real) < overflow_bound" by (simp add: overflow_bound_def)
  then show "\<bar>x\<bar> \<le> 1000000 \<Longrightarrow> to_double x = Some x"
    by (simp add: to_double_def)
qed

lemma apply_fn_finite:
  "apply_fn op (map Some xs) =
     (case fn op xs of Inr x \<Rightarrow> Inr (to_double x) | Inl NonFinite \<Rightarrow> Inr None | Inl e \<Rightarrow> Inl e)"
proof -
  have "those (map Some xs) = Some xs" by (induction xs) simp_all
  then show ?thesis by (simp add: apply_fn_def)
qed

lemma apply_fn_2: "apply_fn op [Some a, Some b] =
     (case fn op [a, b] of Inr x \<Rightarrow> Inr (to_double x) | Inl NonFinite \<Rightarrow> Inr None | Inl e \<Rightarrow> Inl e)"
  using apply_fn_finite[of op "[a, b]"] by simp

lemma oplist_accepts: "op \<in> set oplist \<Longrightarrow> n op \<le> int k \<Longrightarrow> accepts op k"
  using oplist_fn[of op] by (simp add: accepts_def)

text \<open>
  C7 (amended). Evaluating a tree that contains an internal node without an operation
  returns no number. When every operation in the tree accepts the children of its node
  (the arity invariant of the data model, which an operation of the registry meets as
  soon as its node has as many children as it takes arguments), the outcome is the
  dereference of the null operation pointer, undefined behaviour and not a raised
  error, reached after the children of the node have been evaluated, whatever doubles
  they gave. Under the same invariant, when every internal node has an operation,
  evaluation returns a number, a double that may be an infinity or NaN, and raises no
  error.
\<close>

theorem eval_unassigned:
  "(\<not> assigned t \<longrightarrow> (\<exists>e. eval t = Inl e)) \<and>
   (arity_kept t \<and> \<not> assigned t \<longrightarrow> eval t = Inl NullDeref \<and> \<not> raised (eval t)) \<and>
   (arity_kept t \<and> assigned t \<longrightarrow> (\<exists>r. eval t = Inr r) \<and> \<not> raised (eval t)) \<and>
   (op \<in> set oplist \<and> n op \<le> int k \<longrightarrow> accepts op k)"
proof (intro conjI impI)
  assume "\<not> assigned t"
  then show "\<exists>e. eval t = Inl e" by (rule eval_unassigned_fails(1))
next
  assume a: "arity_kept t \<and> \<not> assigned t"
  with eval_arity_kept(1)[of t] show "eval t = Inl NullDeref" by blast
  then show "\<not> raised (eval t)" by simp
next
  assume a: "arity_kept t \<and> assigned t"
  with eval_arity_kept(1)[of t] show "\<exists>r. eval t = Inr r" by blast
  then show "\<not> raised (eval t)" by auto
next
  assume "op \<in> set oplist \<and> n op \<le> int k"
  then show "accepts op k" using oplist_accepts by blast
qed

theorem eval_unassigned_witness:
  "eval (Expr (Some op_mul) [Expr None [Value 1, Value 2], Value 3]) = Inl NullDeref \<and>
   eval (Expr None [Expr (Some op_div) [Value 1, Value 0], Value 2]) = Inl NullDeref \<and>
   (\<exists>r. eval (Expr (Some op_div) [Value 1, Expr (Some op_sub) [Value 2, Value 2]]) = Inr r) \<and>
   accepts op_pow 2"
proof -
  have acc: "accepts op_mul 2" "accepts op_div 2" "accepts op_sub 2" "accepts op_pow 2"
    by (rule mp[OF eval_unassigned[THEN conjunct2, THEN conjunct2, THEN conjunct2]],
        simp add: oplist_def op_mul_def op_div_def op_sub_def op_pow_def)+
  have two: "Suc (Suc 0) = 2" by simp
  have 1: "eval (Expr (Some op_mul) [Expr None [Value 1, Value 2], Value 3]) = Inl NullDeref"
    by (rule conjunct1[OF mp[OF eval_unassigned[THEN conjunct2, THEN conjunct1]]])
       (simp add: two acc)
  have 2: "eval (Expr None [Expr (Some op_div) [Value 1, Value 0], Value 2]) = Inl NullDeref"
    by (rule conjunct1[OF mp[OF eval_unassigned[THEN conjunct2, THEN conjunct1]]])
       (simp add: two acc)
  have 3: "\<exists>r. eval (Expr (Some op_div) [Value 1, Expr (Some op_sub) [Value 2, Value 2]]) = Inr r"
    by (rule conjunct1[OF mp[OF eval_unassigned[THEN conjunct2, THEN conjunct2, THEN conjunct1]]])
       (simp add: two acc)
  show ?thesis using 1 2 3 acc(4) by blast
qed

text \<open>
  A node without an operation: the outcome is the null dereference, not a raised error,
  also below a division by zero, whose infinity is passed on like any other double.
\<close>

theorem eval_unassigned_counterexample:
  "eval (Expr None [Value 1, Value 2]) = Inl NullDeref \<and>
   \<not> raised (eval (Expr None [Value 1, Value 2])) \<and>
   eval (Expr None [Expr (Some op_div) [Value 1, Value 0], Value 2]) = Inl NullDeref \<and>
   \<not> raised (eval (Expr None [Expr (Some op_div) [Value 1, Value 0], Value 2]))"
  by (simp add: apply_fn_2 op_div_def binary_def arg_def div_T_def)

section \<open>Rendering\<close>

lemma output_call_form:
  "infx op = [] \<or> (length args \<noteq> 1 \<and> length args \<noteq> 2) \<Longrightarrow>
     output_node fmt (Expr (Some op) args)
       = name op @ ''('' @ commas (map (output_node fmt) args) @ '')''"
proof (cases args)
  case Nil
  then show ?thesis by simp
next
  case (Cons a as)
  note c1 = this
  assume h: "infx op = [] \<or> (length args \<noteq> 1 \<and> length args \<noteq> 2)"
  show ?thesis
  proof (cases as)
    case Nil
    with c1 h show ?thesis by simp
  next
    case (Cons b bs)
    with c1 h show ?thesis by (cases bs) simp_all
  qed
qed

lemma oplist_infx_prec: "op \<in> set oplist \<Longrightarrow> infx op \<noteq> [] \<and> prec op \<le> 9"
  by (auto simp: oplist_def op_add_def op_sub_def op_mul_def op_div_def op_pow_def op_cat_def
      op_neg_def)

text \<open>
  C3 (amended). At an internal node whose operation has an infix symbol and which has two
  children, or one, the renderer puts parentheses around a child's rendering exactly when
  the precedence of the child (9 for a leaf) is strictly lower than the precedence of the
  node's operation; a child of equal precedence is not parenthesised. Every operation of
  the registry has an infix symbol and a precedence of at most 9, so below them a leaf
  is never parenthesised. A node rendered as a function call (an operation without
  infix symbol, or a number of children other than one and two) does not parenthesise
  its children.
\<close>

theorem output_brackets:
  "(infx op \<noteq> [] \<longrightarrow>
      output_node fmt (Expr (Some op) [a, b]) =
        (if precedence (operation a) < prec op then ''('' @ output_node fmt a @ '')''
         else output_node fmt a)
        @ infx op @
        (if precedence (operation b) < prec op then ''('' @ output_node fmt b @ '')''
         else output_node fmt b)
      \<and> output_node fmt (Expr (Some op) [a]) =
        infx op @
        (if precedence (operation a) < prec op then ''('' @ output_node fmt a @ '')''
         else output_node fmt a)) \<and>
   precedence (operation (Value v)) = 9 \<and>
   (op \<in> set oplist \<longrightarrow> infx op \<noteq> [] \<and> prec op \<le> 9) \<and>
   (infx op = [] \<or> (length args \<noteq> 1 \<and> length args \<noteq> 2) \<longrightarrow>
      output_node fmt (Expr (Some op) args)
        = name op @ ''('' @ commas (map (output_node fmt) args) @ '')'')"
  using output_call_form[of op args fmt] oplist_infx_prec[of op]
  by (simp add: brackets_def)

theorem output_brackets_witness:
  "output_node show_integral (Expr (Some op_mul) [Expr (Some op_add) [Value 1, Value 2], Value 3])
     = ''(1+2)*3'' \<and>
   output_node show_integral (Expr (Some op_add) [Value 1, Expr (Some op_sub) [Value 2, Value 3]])
     = ''1+2-3'' \<and>
   output_node show_integral (Expr (Some op_neg) [Expr (Some op_add) [Value 1, Value 2]])
     = ''-(1+2)'' \<and>
   op_mul \<in> set oplist \<and> prec op_mul \<le> 9"
proof -
  have s: "show_integral 1 = ''1''" "show_integral 2 = ''2''" "show_integral 3 = ''3''"
    by (simp_all add: show_integral_def show_nat.simps)
  have i: "infx op_add \<noteq> []" "infx op_sub \<noteq> []" "infx op_mul \<noteq> []" "infx op_neg \<noteq> []"
    by (simp_all add: op_add_def op_sub_def op_mul_def op_neg_def)
  have p: "prec op_add = 1" "prec op_sub = 1" "prec op_mul = 2" "prec op_neg = 2"
    "infx op_add = ''+''" "infx op_sub = ''-''" "infx op_mul = ''*''" "infx op_neg = ''-''"
    by (simp_all add: op_add_def op_sub_def op_mul_def op_neg_def)
  note inner_add = output_brackets[where op = op_add and fmt = show_integral and a = "Value 1" and b = "Value 2",
      THEN conjunct1, THEN mp, OF i(1), THEN conjunct1]
  note inner_sub = output_brackets[where op = op_sub and fmt = show_integral and a = "Value 2" and b = "Value 3",
      THEN conjunct1, THEN mp, OF i(2), THEN conjunct1]
  have 1: "output_node show_integral (Expr (Some op_mul) [Expr (Some op_add) [Value 1, Value 2], Value 3])
     = ''(1+2)*3''"
    using output_brackets[where op = op_mul and fmt = show_integral and a = "Expr (Some op_add) [Value 1, Value 2]" and b = "Value 3",
      THEN conjunct1, THEN mp, OF i(3), THEN conjunct1] inner_add
    by (simp add: s p)
  have 2: "output_node show_integral (Expr (Some op_add) [Value 1, Expr (Some op_sub) [Value 2, Value 3]])
     = ''1+2-3''"
    using output_brackets[where op = op_add and fmt = show_integral and a = "Value 1" and b = "Expr (Some op_sub) [Value 2, Value 3]",
      THEN conjunct1, THEN mp, OF i(1), THEN conjunct1] inner_sub
    by (simp add: s p)
  have 3: "output_node show_integral (Expr (Some op_neg) [Expr (Some op_add) [Value 1, Value 2]])
     = ''-(1+2)''"
    using output_brackets[where op = op_neg and fmt = show_integral and a = "Expr (Some op_add) [Value 1, Value 2]",
      THEN conjunct1, THEN mp, OF i(4), THEN conjunct2] inner_add
    by (simp add: s p)
  have m: "op_mul \<in> set oplist" by (simp add: oplist_def)
  have 4: "prec op_mul \<le> 9"
    using output_brackets[where op = op_mul, THEN conjunct2, THEN conjunct2, THEN conjunct1] m by blast
  show ?thesis using 1 2 3 4 m by blast
qed

text \<open>
  An operation without infix symbol above a sum: the child has the lower precedence and
  is rendered without parentheses. An infix operation of precedence 10: its leaves are
  parenthesised.
\<close>

theorem output_call_form_counterexample:
  "precedence (operation (Expr (Some op_add) [Value 1, Value 2]))
     < precedence (Some \<lparr>name = ''f'', infx = [], n = 2, prec = 2, fn = fn op_mul\<rparr>) \<and>
   output_node show_integral
     (Expr (Some \<lparr>name = ''f'', infx = [], n = 2, prec = 2, fn = fn op_mul\<rparr>)
        [Expr (Some op_add) [Value 1, Value 2], Value 3]) = ''f(1+2,3)'' \<and>
   output_node show_integral
     (Expr (Some \<lparr>name = ''g'', infx = ''!'', n = 2, prec = 10, fn = fn op_mul\<rparr>)
        [Value 1, Value 2]) = ''(1)!(2)''"
  by (simp add: op_add_def brackets_def show_integral_def show_nat.simps)

text \<open>
  C4 (amended). For the operands 1, 2, 3 and the operator list \<open>+, -, *, /\<close>, the shape
  of a leaf on the left and an internal node with two leaves on the right, at operator
  index 0, gets \<open>+\<close> at both internal nodes, evaluates to 6 and is rendered \<open>1+2+3\<close>:
  the right child has the precedence of its parent and is not parenthesised. The text
  of a number is the formatter's; the statement is for every formatter that prints the
  three operands as \<open>1\<close>, \<open>2\<close>, \<open>3\<close>.
\<close>

theorem scenario_add_add:
  "fmt 1 = ''1'' \<Longrightarrow> fmt 2 = ''2'' \<Longrightarrow> fmt 3 = ''3'' \<Longrightarrow>
   iteration fmt [op_add, op_sub, op_mul, op_div] [1, 2, 3] None
       (Expr None [Value 0, Expr None [Value 0, Value 0]]) 0
     = Inr (Expr (Some op_add) [Value 1, Expr (Some op_add) [Value 2, Value 3]],
            [(Some 6, ''1+2+3'')])"
  by (simp add: iteration_def next_num_def OpsGenerator_next_def Let_def op_add_def binary_def
      arg_def brackets_def apply_fn_2 to_double_small)

theorem scenario_add_add_witness:
  "iteration show_integral [op_add, op_sub, op_mul, op_div] [1, 2, 3] None
       (Expr None [Value 0, Expr None [Value 0, Value 0]]) 0
     = Inr (Expr (Some op_add) [Value 1, Expr (Some op_add) [Value 2, Value 3]],
            [(Some 6, ''1+2+3'')])"
  by (rule scenario_add_add) (simp_all add: show_integral_def show_nat.simps)

text \<open>The rendering \<open>1+(2+3)\<close> of the specification's scenario is not what the pass reports.\<close>

theorem scenario_add_add_counterexample:
  "iteration show_integral [op_add, op_sub, op_mul, op_div] [1, 2, 3] None
       (Expr None [Value 0, Expr None [Value 0, Value 0]]) 0
     \<noteq> Inr (Expr (Some op_add) [Value 1, Expr (Some op_add) [Value 2, Value 3]],
            [(Some 6, ''1+(2+3)'')])"
  by (simp add: iteration_def next_num_def OpsGenerator_next_def Let_def op_add_def binary_def
      arg_def brackets_def show_integral_def show_nat.simps apply_fn_2 to_double_small)

section \<open>The search loop\<close>

lemma erase_values_idem: "erase_values (erase_values t) = erase_values t"
  by (induction t) (auto cong: map_cong)

lemma erase_commute: "erase_binops (erase_values t) = erase_values (erase_binops t)"
  by (induction t) (auto cong: map_cong)

lemma setvalues_erased:
  "erase_values t = erase_values u \<Longrightarrow> setvalues nxt t g = setvalues nxt u g"
  "map erase_values ts = map erase_values us \<Longrightarrow> setvalues_args nxt ts g = setvalues_args nxt us g"
proof (induction t and ts arbitrary: u g and us g rule: Node_Nodes_induct)
  case (1 v)
  then show ?case by (cases u) auto
next
  case (2 opt args)
  then obtain args' where u: "u = Expr opt args'" "map erase_values args = map erase_values args'"
    by (cases u) auto
  with 2(1)[OF u(2), of g] show ?case by simp
next
  case 3
  then show ?case by simp
next
  case (4 a as)
  then obtain b bs where us: "us = b # bs" "erase_values a = erase_values b"
    "map erase_values as = map erase_values bs"
    by (cases us) auto
  have ab: "setvalues nxt a g = setvalues nxt b g" by (rule 4(1)[OF us(2)])
  have fe: "setvalues_args nxt as = setvalues_args nxt bs"
    by (rule ext) (rule 4(2)[OF us(3)])
  show ?case by (simp add: us(1) ab fe cong: sum.case_cong)
qed

lemma setops_erased:
  "erase_binops t = erase_binops u \<Longrightarrow> setops nxt t g = setops nxt u g"
  "map erase_binops ts = map erase_binops us \<Longrightarrow> setops_args nxt ts g = setops_args nxt us g"
proof (induction t and ts arbitrary: u g and us g rule: Node_Nodes_induct)
  case (1 v)
  then show ?case by (cases u) auto
next
  case (2 opt args)
  then obtain opt' args' where u: "u = Expr opt' args'"
    "map erase_binops args = map erase_binops args'"
    "(if length args = 2 then None else opt) = (if length args' = 2 then None else opt')"
    by (cases u) auto
  from u(2) have len: "length args = length args'" by (rule map_eq_imp_length_eq)
  have e: "setops_args nxt args = setops_args nxt args'"
    by (rule ext) (rule 2(1)[OF u(2)])
  show ?case
  proof (cases "length args = 2")
    case True
    then have "length args' = 2" using len by simp
    with True show ?thesis by (simp add: u(1) e cong: sum.case_cong)
  next
    case False
    then have "length args' \<noteq> 2" using len by simp
    moreover from this False u(3) have "opt = opt'" by simp
    ultimately show ?thesis using False by (simp add: u(1) e cong: sum.case_cong)
  qed
next
  case 3
  then show ?case by simp
next
  case (4 a as)
  then obtain b bs where us: "us = b # bs" "erase_binops a = erase_binops b"
    "map erase_binops as = map erase_binops bs"
    by (cases us) auto
  have ab: "setops nxt a g = setops nxt b g" by (rule 4(1)[OF us(2)])
  have fe: "setops_args nxt as = setops_args nxt bs"
    by (rule ext) (rule 4(2)[OF us(3)])
  show ?case by (simp add: us(1) ab fe cong: sum.case_cong)
qed

lemma setvalues_erase_binops:
  "setvalues nxt (erase_binops t) g =
     (case setvalues nxt t g of Inl e \<Rightarrow> Inl e | Inr (t', g') \<Rightarrow> Inr (erase_binops t', g'))"
  "setvalues_args nxt (map erase_binops ts) g =
     (case setvalues_args nxt ts g of Inl e \<Rightarrow> Inl e
      | Inr (ts', g') \<Rightarrow> Inr (map erase_binops ts', g'))"
proof (induction t and ts arbitrary: g and g rule: Node_Nodes_induct)
  case (1 v)
  then show ?case by (auto split: sum.splits)
next
  case (2 opt args)
  show ?case
  proof (cases "setvalues_args nxt args g")
    case (Inl e)
    with 2[of g] show ?thesis by simp
  next
    case (Inr p)
    obtain ts' g' where p: "p = (ts', g')" by (cases p)
    from Inr p have "length ts' = length args"
      using setvalues_frame(2)[of nxt args g ts' g'] map_eq_imp_length_eq by blast
    with 2[of g] Inr p show ?thesis by simp
  qed
next
  case 3
  then show ?case by simp
next
  case (4 a as)
  then show ?case by (auto split: sum.splits)
qed

lemma iteration_blank:
  assumes "blank t = blank u"
  shows "iteration fmt binops nums target t i = iteration fmt binops nums target u i"
proof -
  let ?sv = "\<lambda>x. setvalues next_num x nums"
  let ?k = "\<lambda>r. case r of Inl e \<Rightarrow> Inl e | Inr (t', g') \<Rightarrow> Inr (erase_binops t', g' :: int list)"
  have t: "?sv t = ?sv (erase_values t)" and u: "?sv u = ?sv (erase_values u)"
    by (rule setvalues_erased(1), simp add: erase_values_idem)+
  have "?k (?sv (erase_values t)) = ?sv (erase_binops (erase_values t))"
    by (simp add: setvalues_erase_binops(1))
  also have "\<dots> = ?sv (erase_binops (erase_values u))"
    using assms by (simp add: blank_def)
  also have "\<dots> = ?k (?sv (erase_values u))"
    by (simp add: setvalues_erase_binops(1))
  finally have k: "?k (?sv t) = ?k (?sv u)" using t u by simp
  show ?thesis
  proof (cases "?sv t")
    case (Inl e)
    with k have "?sv u = Inl e" by (auto split: sum.splits)
    with Inl show ?thesis by (simp add: iteration_def)
  next
    case (Inr p)
    obtain t1 g1 where p: "p = (t1, g1)" by (cases p)
    with Inr k obtain u1 where u1: "?sv u = Inr (u1, g1)" "erase_binops t1 = erase_binops u1"
      by (auto split: sum.splits)
    have "setops OpsGenerator_next t1 \<lparr>ops = binops, cur = i\<rparr>
        = setops OpsGenerator_next u1 \<lparr>ops = binops, cur = i\<rparr>"
      by (rule setops_erased(1)[OF u1(2)])
    with Inr p u1(1) show ?thesis by (simp add: iteration_def)
  qed
qed

lemma iteration_keeps_blank:
  assumes "iteration fmt binops nums target t i = Inr (t2, out)"
  shows "blank t2 = blank t"
proof -
  from assms obtain t1 g1 g2 where
    a: "setvalues next_num t nums = Inr (t1, g1)"
    and b: "setops OpsGenerator_next t1 \<lparr>ops = binops, cur = i\<rparr> = Inr (t2, g2)"
    by (auto simp: iteration_def split: sum.splits prod.splits option.splits if_splits)
  from a have 1: "erase_values t1 = erase_values t" by (rule setvalues_frame(1))
  from b have 2: "erase_binops t2 = erase_binops t1" by (rule setops_frame(1))
  have "blank t2 = erase_values (erase_binops t2)" by (simp add: blank_def erase_commute)
  also have "\<dots> = erase_binops (erase_values t1)" by (simp add: 2 erase_commute)
  also have "\<dots> = blank t" by (simp add: 1 blank_def)
  finally show ?thesis .
qed

lemma bound_2_2: "loop_bound [op_add, op_mul] [2, 2] = 2"
  by (simp add: loop_bound_def intpow_def intpow_loop.simps)

lemma fmt_small: "show_integral 2 = ''2''" "show_integral 4 = ''4''"
  by (simp_all add: show_integral_def show_nat.simps)

lemma pass_0:
  "iteration fmt [op_add, op_mul] [2, 2] None (Expr None [Value 0, Value 0]) 0
     = Inr (Expr (Some op_add) [Value 2, Value 2], [(Some 4, fmt 2 @ ''+'' @ fmt 2)])"
  by (simp add: iteration_def next_num_def OpsGenerator_next_def Let_def op_add_def binary_def
      arg_def brackets_def apply_fn_2 to_double_small)

lemma pass_1:
  "iteration fmt [op_add, op_mul] [2, 2] None (Expr None [Value 0, Value 0]) 1
     = Inr (Expr (Some op_mul) [Value 2, Value 2], [(Some 4, fmt 2 @ ''*'' @ fmt 2)])"
  by (simp add: iteration_def next_num_def OpsGenerator_next_def Let_def op_mul_def binary_def
      arg_def brackets_def apply_fn_2 to_double_small)

lemma cloned_2_2:
  "main_loop_cloned show_integral [op_add, op_mul] [2, 2] None 0 (Expr None [Value 0, Value 0])
     = Inr [(Some 4, ''2+2''), (Some 4, ''2*2'')]"
  by (simp add: main_loop_cloned.simps[of _ _ _ _ 0] main_loop_cloned.simps[of _ _ _ _ 1]
      main_loop_cloned.simps[of _ _ _ _ 2] bound_2_2 pass_0 pass_1 fmt_small)

text \<open>
  C5 (amended). The loop does not clone: every pass mutates the one tree it was handed,
  and the next pass starts from the tree the pass before left. The reports are
  nevertheless those of a loop that takes a fresh copy of the shape for every index:
  whatever leaf values and two-child-node operations the tree carries from earlier
  passes (\<open>blank expr = blank shape\<close>), the results and renderings reported from the
  index \<open>i\<close> on are the same, because each pass overwrites every leaf value and the
  operation of every two-child node before it evaluates.
\<close>

theorem main_loop_independent:
  "blank expr = blank shape \<Longrightarrow>
   map_sum id snd (main_loop fmt binops nums target i expr)
     = main_loop_cloned fmt binops nums target i shape"
proof (induction fmt binops nums target i expr rule: main_loop.induct)
  case (1 fmt binops nums target i expr)
  show ?case
  proof (cases "i < loop_bound binops nums")
    case False
    then show ?thesis
      by (subst main_loop.simps, subst main_loop_cloned.simps) simp
  next
    case True
    have it: "iteration fmt binops nums target expr i = iteration fmt binops nums target shape i"
      by (rule iteration_blank[OF 1(2)])
    show ?thesis
    proof (cases "iteration fmt binops nums target shape i")
      case (Inl e)
      with it True show ?thesis
        by (subst main_loop.simps, subst main_loop_cloned.simps) simp
    next
      case (Inr p)
      obtain expr' out where p: "p = (expr', out)" by (cases p)
      from it Inr p have ie: "iteration fmt binops nums target expr i = Inr (expr', out)" by simp
      then have "blank expr' = blank shape"
        using iteration_keeps_blank[OF ie] 1(2) by simp
      from 1(1)[OF True ie refl this]
      have IH: "map_sum id snd (main_loop fmt binops nums target (i + 1) expr')
          = main_loop_cloned fmt binops nums target (i + 1) shape" .
      show ?thesis
        using True ie Inr p IH
        by (subst main_loop.simps, subst main_loop_cloned.simps)
           (auto split: sum.splits)
    qed
  qed
qed

theorem main_loop_independent_witness:
  "enumtrees 2 = [Expr None [Value 0, Value 0]] \<and>
   blank (Expr (Some op_mul) [Value 7, Value 8]) = blank (Expr None [Value 0, Value 0]) \<and>
   map_sum id snd (main_loop show_integral [op_add, op_mul] [2, 2] None 0
       (Expr (Some op_mul) [Value 7, Value 8]))
     = Inr [(Some 4, ''2+2''), (Some 4, ''2*2'')]"
proof -
  have e: "enumtrees 2 = [Expr None [Value 0, Value 0]]"
    by (simp add: enumtrees_rec enumtrees_small)
  have b: "blank (Expr (Some op_mul) [Value 7, Value 8]) = blank (Expr None [Value 0, Value 0])"
    by (simp add: blank_def)
  from main_loop_independent[OF b, of show_integral "[op_add, op_mul]" "[2, 2]" None 0]
  show ?thesis using e b by (simp only: cloned_2_2 simp_thms)
qed

text \<open>
  The pass for index 0 leaves a tree that is not the fresh shape; the loop goes on from
  index 1 with that tree, and the tree it hands back carries the last assignment.
\<close>

theorem main_loop_reuse_counterexample:
  "iteration show_integral [op_add, op_mul] [2, 2] None (Expr None [Value 0, Value 0]) 0
     = Inr (Expr (Some op_add) [Value 2, Value 2], [(Some 4, ''2+2'')]) \<and>
   Expr (Some op_add) [Value 2, Value 2] \<noteq> Expr None [Value 0, Value 0] \<and>
   main_loop show_integral [op_add, op_mul] [2, 2] None 1 (Expr (Some op_add) [Value 2, Value 2])
     = Inr (Expr (Some op_mul) [Value 2, Value 2], [(Some 4, ''2*2'')]) \<and>
   main_loop show_integral [op_add, op_mul] [2, 2] None 0 (Expr None [Value 0, Value 0])
     = Inr (Expr (Some op_mul) [Value 2, Value 2], [(Some 4, ''2+2''), (Some 4, ''2*2'')])"
proof -
  have 1: "iteration show_integral [op_add, op_mul] [2, 2] None (Expr None [Value 0, Value 0]) 0
     = Inr (Expr (Some op_add) [Value 2, Value 2], [(Some 4, ''2+2'')])"
    by (simp add: pass_0 fmt_small)
  have 2: "Expr (Some op_add) [Value 2, Value 2] \<noteq> Expr None [Value 0, Value 0]"
    by simp
  have b: "blank (Expr (Some op_add) [Value 2, Value 2]) = blank (Expr None [Value 0, Value 0])"
    by (simp add: blank_def)
  have p1: "iteration show_integral [op_add, op_mul] [2, 2] None (Expr (Some op_add) [Value 2, Value 2]) 1
     = Inr (Expr (Some op_mul) [Value 2, Value 2], [(Some 4, ''2*2'')])"
    by (simp add: iteration_blank[OF b] pass_1 fmt_small)
  have 4: "main_loop show_integral [op_add, op_mul] [2, 2] None 2 (Expr (Some op_mul) [Value 2, Value 2])
     = Inr (Expr (Some op_mul) [Value 2, Value 2], [])"
    by (subst main_loop.simps) (simp add: bound_2_2)
  have 3: "main_loop show_integral [op_add, op_mul] [2, 2] None 1 (Expr (Some op_add) [Value 2, Value 2])
     = Inr (Expr (Some op_mul) [Value 2, Value 2], [(Some 4, ''2*2'')])"
    by (subst main_loop.simps) (simp add: bound_2_2 p1 4)
  have 5: "main_loop show_integral [op_add, op_mul] [2, 2] None 0 (Expr None [Value 0, Value 0])
     = Inr (Expr (Some op_mul) [Value 2, Value 2], [(Some 4, ''2+2''), (Some 4, ''2*2'')])"
    by (subst main_loop.simps) (simp add: bound_2_2 1 3)
  show ?thesis using 1 2 3 5 by blast
qed

end
